theory Spec2Isabelle
  imports Complex_Main
begin

text \<open>
  A model of \<open>ferry_cross.c\<close>: one ferry thread and \<open>FERRY_CAPACITY\<close> car threads that
  meet through four counting semaphores, a mutex and the counter \<open>cars_on_board\<close>. Each
  thread is a program counter over the statements of its function; an execution is an
  interleaving of single statements. The counter is read and written only between
  \<open>pthread_mutex_lock\<close> and \<open>pthread_mutex_unlock\<close>, and the semaphore and mutex calls are
  atomic, so interleaving whole statements loses no behaviour of the threads.
\<close>

section \<open>Configuration (ferry\_cross.c, lines 13--14)\<close>

definition FERRY_CAPACITY :: nat where
  "FERRY_CAPACITY = 5"

definition PROGRAM_RUNTIME :: nat where
  "PROGRAM_RUNTIME = 60"

section \<open>The event logger \<open>print_status\<close> (lines 46--64)\<close>

text \<open>
  A printed line keeps the three values the two \<open>printf\<close> calls format: the time stamp
  (seconds), the message and, for a car line, the car number. The rendering of the
  time stamp by \<open>%.4f\<close> is not modelled.
\<close>

datatype line =
    Ferry_line real string
  | Car_line real int string

text \<open>
  \<open>print_status\<close> reads the clock itself; here the value it read is the first argument.
  The result is the line printed, or \<open>None\<close> when the call returns without printing.
\<close>

definition print_status :: "real \<Rightarrow> string \<Rightarrow> int \<Rightarrow> line option" where
  "print_status current_time message car_num =
     (if current_time > real PROGRAM_RUNTIME \<and> car_num \<noteq> - 99 then None
      else if car_num = - 1 \<or> car_num = - 99 then Some (Ferry_line current_time message)
      else Some (Car_line current_time car_num message))"

fun line_time :: "line \<Rightarrow> real" where
  "line_time (Ferry_line t m) = t"
| "line_time (Car_line t n m) = t"

section \<open>Threads and shared state\<close>

text \<open>
  Program counters name the statement a thread executes next. The ferry's two
  \<open>for\<close> loops carry their counter \<open>i\<close>.
\<close>

datatype fpc =
    F_arrive_first        \<comment> \<open>line 70\<close>
  | F_check_time          \<comment> \<open>line 74\<close>
  | F_post_board nat      \<comment> \<open>lines 78--80, loop counter\<close>
  | F_wait_full           \<comment> \<open>line 83\<close>
  | F_check_depart        \<comment> \<open>line 86\<close>
  | F_print_leave         \<comment> \<open>line 90\<close>
  | F_sleep_cross         \<comment> \<open>line 91\<close>
  | F_print_arrive        \<comment> \<open>line 94\<close>
  | F_post_unboard nat    \<comment> \<open>lines 96--98, loop counter\<close>
  | F_wait_empty          \<comment> \<open>line 101\<close>
  | F_exit                \<comment> \<open>line 103\<close>

datatype cpc =
    C_start               \<comment> \<open>lines 109--110\<close>
  | C_check_time          \<comment> \<open>line 116\<close>
  | C_wait_board          \<comment> \<open>line 120\<close>
  | C_lock_board          \<comment> \<open>line 123\<close>
  | C_usleep_board        \<comment> \<open>line 127\<close>
  | C_incr                \<comment> \<open>line 129\<close>
  | C_print_entered       \<comment> \<open>line 130\<close>
  | C_test_full           \<comment> \<open>line 133\<close>
  | C_post_full           \<comment> \<open>line 134\<close>
  | C_unlock_board        \<comment> \<open>line 136\<close>
  | C_wait_unboard        \<comment> \<open>line 140\<close>
  | C_usleep_unboard      \<comment> \<open>line 143\<close>
  | C_print_left          \<comment> \<open>line 144\<close>
  | C_lock_unboard        \<comment> \<open>line 147\<close>
  | C_decr                \<comment> \<open>line 148\<close>
  | C_test_empty          \<comment> \<open>line 151\<close>
  | C_post_empty          \<comment> \<open>line 152\<close>
  | C_unlock_unboard      \<comment> \<open>line 154\<close>
  | C_usleep_away         \<comment> \<open>line 159\<close>
  | C_exit                \<comment> \<open>line 161\<close>

text \<open>
  The globals of the program, the clock, the standard output and the position of every
  thread. The mutex records its owner, the index of a car thread; car thread \<open>i\<close>
  carries the identifier \<open>i + 1\<close> (line 197). \<open>clock_us\<close> is the time since
  \<open>start_time\<close> in microseconds, the resolution of \<open>gettimeofday\<close>.
\<close>

record state =
  car_count_mutex :: "nat option"
  sem_board :: nat
  sem_full :: nat
  sem_unboard :: nat
  sem_empty :: nat
  cars_on_board :: int
  clock_us :: int
  ferry_pc :: fpc
  car_pcs :: "cpc list"
  stdout :: "line list"

text \<open>
  \<open>get_relative_time_sec\<close> (lines 34--41) adds the difference of the seconds and the
  difference of the microseconds divided by 1000000. Both are whole numbers, so the
  result is a whole number of microseconds; the \<open>double\<close> of the source is precise
  enough for its comparisons with \<open>PROGRAM_RUNTIME\<close> to come out as they do on the exact
  number, which is the number used here.
\<close>

definition get_relative_time_sec :: "state \<Rightarrow> real" where
  "get_relative_time_sec s = real_of_int (clock_us s) / 1000000"

definition emit :: "string \<Rightarrow> int \<Rightarrow> state \<Rightarrow> state" where
  "emit message car_num s =
     (case print_status (get_relative_time_sec s) message car_num of
        None \<Rightarrow> s
      | Some l \<Rightarrow> s\<lparr>stdout := stdout s @ [l]\<rparr>)"

subsection \<open>\<open>ferry_thread\<close> (lines 68--104)\<close>

text \<open>
  One statement of the ferry. \<open>None\<close> means the thread cannot move: it is blocked in
  \<open>sem_wait\<close>, or it has returned.
\<close>

definition ferry_step :: "state \<Rightarrow> state option" where
  "ferry_step s =
     (case ferry_pc s of
        F_arrive_first \<Rightarrow>
          Some ((emit ''arrives to new dock'' (- 1) s)\<lparr>ferry_pc := F_check_time\<rparr>)
      | F_check_time \<Rightarrow>
          (if get_relative_time_sec s \<ge> real PROGRAM_RUNTIME
           then Some (s\<lparr>ferry_pc := F_exit\<rparr>)
           else Some (s\<lparr>ferry_pc := F_post_board 0\<rparr>))
      | F_post_board i \<Rightarrow>
          (if i < FERRY_CAPACITY
           then Some (s\<lparr>sem_board := sem_board s + 1, ferry_pc := F_post_board (i + 1)\<rparr>)
           else Some (s\<lparr>ferry_pc := F_wait_full\<rparr>))
      | F_wait_full \<Rightarrow>
          (if sem_full s > 0
           then Some (s\<lparr>sem_full := sem_full s - 1, ferry_pc := F_check_depart\<rparr>)
           else None)
      | F_check_depart \<Rightarrow>
          (if get_relative_time_sec s \<ge> real PROGRAM_RUNTIME
           then Some (s\<lparr>ferry_pc := F_exit\<rparr>)
           else Some (s\<lparr>ferry_pc := F_print_leave\<rparr>))
      | F_print_leave \<Rightarrow>
          Some ((emit ''leaves the dock'' (- 1) s)\<lparr>ferry_pc := F_sleep_cross\<rparr>)
      | F_sleep_cross \<Rightarrow> Some (s\<lparr>ferry_pc := F_print_arrive\<rparr>)
      | F_print_arrive \<Rightarrow>
          Some ((emit ''arrives to new dock'' (- 1) s)\<lparr>ferry_pc := F_post_unboard 0\<rparr>)
      | F_post_unboard i \<Rightarrow>
          (if i < FERRY_CAPACITY
           then Some (s\<lparr>sem_unboard := sem_unboard s + 1, ferry_pc := F_post_unboard (i + 1)\<rparr>)
           else Some (s\<lparr>ferry_pc := F_wait_empty\<rparr>))
      | F_wait_empty \<Rightarrow>
          (if sem_empty s > 0
           then Some (s\<lparr>sem_empty := sem_empty s - 1, ferry_pc := F_check_time\<rparr>)
           else None)
      | F_exit \<Rightarrow> None)"

subsection \<open>\<open>car_thread\<close> (lines 108--162)\<close>

definition goto :: "nat \<Rightarrow> cpc \<Rightarrow> state \<Rightarrow> state" where
  "goto i p s = s\<lparr>car_pcs := (car_pcs s)[i := p]\<rparr>"

text \<open>
  One statement of car thread \<open>i\<close>. \<open>None\<close> means the thread cannot move: it is
  blocked in \<open>sem_wait\<close> or \<open>pthread_mutex_lock\<close>, or it has returned.
\<close>

definition car_step :: "nat \<Rightarrow> state \<Rightarrow> state option" where
  "car_step i s =
     (case car_pcs s ! i of
        C_start \<Rightarrow> Some (goto i C_check_time s)
      | C_check_time \<Rightarrow>
          (if get_relative_time_sec s \<ge> real PROGRAM_RUNTIME
           then Some (goto i C_exit s)
           else Some (goto i C_wait_board s))
      | C_wait_board \<Rightarrow>
          (if sem_board s > 0
           then Some (goto i C_lock_board (s\<lparr>sem_board := sem_board s - 1\<rparr>))
           else None)
      | C_lock_board \<Rightarrow>
          (if car_count_mutex s = None
           then Some (goto i C_usleep_board (s\<lparr>car_count_mutex := Some i\<rparr>))
           else None)
      | C_usleep_board \<Rightarrow> Some (goto i C_incr s)
      | C_incr \<Rightarrow> Some (goto i C_print_entered (s\<lparr>cars_on_board := cars_on_board s + 1\<rparr>))
      | C_print_entered \<Rightarrow>
          Some (goto i C_test_full (emit ''entered the ferry'' (int i + 1) s))
      | C_test_full \<Rightarrow>
          (if cars_on_board s = int FERRY_CAPACITY
           then Some (goto i C_post_full s)
           else Some (goto i C_unlock_board s))
      | C_post_full \<Rightarrow> Some (goto i C_unlock_board (s\<lparr>sem_full := sem_full s + 1\<rparr>))
      | C_unlock_board \<Rightarrow> Some (goto i C_wait_unboard (s\<lparr>car_count_mutex := None\<rparr>))
      | C_wait_unboard \<Rightarrow>
          (if sem_unboard s > 0
           then Some (goto i C_usleep_unboard (s\<lparr>sem_unboard := sem_unboard s - 1\<rparr>))
           else None)
      | C_usleep_unboard \<Rightarrow> Some (goto i C_print_left s)
      | C_print_left \<Rightarrow>
          Some (goto i C_lock_unboard (emit ''left the ferry'' (int i + 1) s))
      | C_lock_unboard \<Rightarrow>
          (if car_count_mutex s = None
           then Some (goto i C_decr (s\<lparr>car_count_mutex := Some i\<rparr>))
           else None)
      | C_decr \<Rightarrow> Some (goto i C_test_empty (s\<lparr>cars_on_board := cars_on_board s - 1\<rparr>))
      | C_test_empty \<Rightarrow>
          (if cars_on_board s = 0
           then Some (goto i C_post_empty s)
           else Some (goto i C_unlock_unboard s))
      | C_post_empty \<Rightarrow> Some (goto i C_unlock_unboard (s\<lparr>sem_empty := sem_empty s + 1\<rparr>))
      | C_unlock_unboard \<Rightarrow> Some (goto i C_usleep_away (s\<lparr>car_count_mutex := None\<rparr>))
      | C_usleep_away \<Rightarrow> Some (goto i C_check_time s)
      | C_exit \<Rightarrow> None)"

subsection \<open>Interleaving\<close>

text \<open>
  The scheduler picks a thread that can move, or lets time pass (the clock never runs
  backwards). A thread that is never
  picked again stands for one that \<open>main\<close> has not created yet, has cancelled, or has
  ended with the process. How long a pause lasts is left to the clock.
\<close>

datatype action = Tick int | Run_ferry | Run_car nat

fun step :: "action \<Rightarrow> state \<Rightarrow> state option" where
  "step (Tick d) s = (if 0 \<le> d then Some (s\<lparr>clock_us := clock_us s + d\<rparr>) else None)"
| "step Run_ferry s = ferry_step s"
| "step (Run_car i) s = (if i < length (car_pcs s) then car_step i s else None)"

text \<open>
  An execution is recorded as the list of statements executed, newest first, each with
  the time at which it ran.
\<close>

datatype label = L_ferry fpc | L_car nat cpc

type_synonym event = "real \<times> label"

fun observe :: "action \<Rightarrow> state \<Rightarrow> event list" where
  "observe (Tick d) s = []"
| "observe Run_ferry s = [(get_relative_time_sec s, L_ferry (ferry_pc s))]"
| "observe (Run_car i) s = [(get_relative_time_sec s, L_car i (car_pcs s ! i))]"

fun exec :: "action list \<Rightarrow> state \<times> event list \<Rightarrow> (state \<times> event list) option" where
  "exec [] c = Some c"
| "exec (a # as) (s, tr) =
     (case step a s of
        None \<Rightarrow> None
      | Some s' \<Rightarrow> exec as (s', observe a s @ tr))"

text \<open>
  The state in which the threads start: the four semaphores as \<open>sem_open\<close> creates them
  (lines 180--183, initial value 0), the counter of line 28, the mutex of line 171, and
  one car thread for each of the \<open>FERRY_CAPACITY\<close> iterations of the loop of line 193.
\<close>

definition init :: state where
  "init = \<lparr>car_count_mutex = None, sem_board = 0, sem_full = 0, sem_unboard = 0,
           sem_empty = 0, cars_on_board = 0, clock_us = 0, ferry_pc = F_arrive_first,
           car_pcs = replicate FERRY_CAPACITY C_start, stdout = []\<rparr>"

definition runs :: "action list \<Rightarrow> state \<Rightarrow> event list \<Rightarrow> bool" where
  "runs acts s tr = (exec acts (init, []) = Some (s, tr))"

section \<open>Observations on executions\<close>

text \<open>
  \<open>occ P tr\<close> counts the events of \<open>tr\<close> whose statement satisfies \<open>P\<close>. A cycle of the
  ferry ends when its \<open>sem_wait(sem_empty)\<close> of line 101 returns; \<open>current_cycle tr\<close> is
  the part of the execution after the last such return.
\<close>

definition occ :: "(label \<Rightarrow> bool) \<Rightarrow> event list \<Rightarrow> nat" where
  "occ P tr = length (filter (\<lambda>ev. P (snd ev)) tr)"

fun by_car :: "cpc \<Rightarrow> label \<Rightarrow> bool" where
  "by_car p (L_car i q) = (q = p)"
| "by_car p (L_ferry q) = False"

definition current_cycle :: "event list \<Rightarrow> event list" where
  "current_cycle tr = takeWhile (\<lambda>ev. snd ev \<noteq> L_ferry F_wait_empty) tr"

fun every_cycle :: "(event list \<Rightarrow> bool) \<Rightarrow> event list \<Rightarrow> bool" where
  "every_cycle P [] = True"
| "every_cycle P (ev # tr) =
     ((snd ev = L_ferry F_wait_empty \<longrightarrow> P (current_cycle tr)) \<and> every_cycle P tr)"

section \<open>The census of a state\<close>

text \<open>
  The invariant of the protocol is arithmetic: it relates the values of the semaphores
  and of the counter to the number of car threads at each group of statements, and to
  the number of increments, decrements and signals of the current cycle.
\<close>

definition num :: "cpc set \<Rightarrow> state \<Rightarrow> nat" where
  "num S s = length (filter (\<lambda>p. p \<in> S) (car_pcs s))"

record census =
  q_away :: nat
  q_lock_board :: nat
  q_pre_incr :: nat
  q_testing :: nat
  q_post_full :: nat
  q_unlock_board :: nat
  q_wait_unboard :: nat
  q_leaving :: nat
  q_decr :: nat
  q_test_empty :: nat
  q_post_empty :: nat
  q_unlock_unboard :: nat
  v_board :: nat
  v_full :: nat
  v_unboard :: nat
  v_empty :: nat
  v_count :: int
  v_locked :: bool
  h_incr :: nat
  h_decr :: nat
  h_post_full :: nat
  h_post_empty :: nat

definition census_of :: "state \<Rightarrow> event list \<Rightarrow> census" where
  "census_of s tr =
     \<lparr>q_away = num {C_start, C_check_time, C_wait_board, C_usleep_away, C_exit} s,
      q_lock_board = num {C_lock_board} s,
      q_pre_incr = num {C_usleep_board, C_incr} s,
      q_testing = num {C_print_entered, C_test_full} s,
      q_post_full = num {C_post_full} s,
      q_unlock_board = num {C_unlock_board} s,
      q_wait_unboard = num {C_wait_unboard} s,
      q_leaving = num {C_usleep_unboard, C_print_left, C_lock_unboard} s,
      q_decr = num {C_decr} s,
      q_test_empty = num {C_test_empty} s,
      q_post_empty = num {C_post_empty} s,
      q_unlock_unboard = num {C_unlock_unboard} s,
      v_board = sem_board s,
      v_full = sem_full s,
      v_unboard = sem_unboard s,
      v_empty = sem_empty s,
      v_count = cars_on_board s,
      v_locked = (car_count_mutex s \<noteq> None),
      h_incr = occ (by_car C_incr) (current_cycle tr),
      h_decr = occ (by_car C_decr) (current_cycle tr),
      h_post_full = occ (by_car C_post_full) (current_cycle tr),
      h_post_empty = occ (by_car C_post_empty) (current_cycle tr)\<rparr>"

text \<open>
  \<open>balanced N kb ku fc t\<close>: the census \<open>t\<close> is consistent with a ferry that, in the current
  cycle, has posted \<open>kb\<close> boarding permits and \<open>ku\<close> unboarding permits, and has
  (\<open>fc\<close>) or has not yet consumed the signal of \<open>sem_full\<close>.
\<close>

definition balanced :: "nat \<Rightarrow> nat \<Rightarrow> nat \<Rightarrow> bool \<Rightarrow> census \<Rightarrow> bool" where
  "balanced N kb ku fc t \<longleftrightarrow>
     0 < N \<and> kb \<le> N \<and> ku \<le> N
   \<and> q_away t + q_lock_board t + q_pre_incr t + q_testing t + q_post_full t
       + q_unlock_board t + q_wait_unboard t + q_leaving t + q_decr t + q_test_empty t
       + q_post_empty t + q_unlock_unboard t \<le> N
   \<and> (0 < ku \<longrightarrow> fc)
   \<and> (fc \<longrightarrow> kb = N \<and> v_board t + q_lock_board t + q_pre_incr t = 0)
   \<and> v_count t = int (q_testing t + q_post_full t + q_unlock_board t + q_wait_unboard t
                       + q_leaving t + q_decr t)
   \<and> int (v_board t + q_lock_board t + q_pre_incr t) + v_count t + int ku
       = int (kb + v_unboard t + q_leaving t + q_decr t)
   \<and> h_incr t + v_board t + q_lock_board t + q_pre_incr t \<le> kb
   \<and> kb \<le> h_incr t + v_board t + q_lock_board t + q_pre_incr t
   \<and> h_decr t + v_unboard t + q_leaving t + q_decr t \<le> ku
   \<and> ku \<le> h_decr t + v_unboard t + q_leaving t + q_decr t
   \<and> v_full t + q_post_full t + (if v_count t = int N then q_testing t else 0)
       = (if kb = N \<and> v_board t + q_lock_board t + q_pre_incr t = 0 \<and> \<not> fc then 1 else 0)
   \<and> v_empty t + q_post_empty t + (if v_count t = 0 then q_test_empty t else 0)
       = (if ku = N \<and> v_unboard t + q_leaving t + q_decr t = 0 then 1 else 0)
   \<and> h_post_full t = v_full t + (if fc then 1 else 0)
   \<and> h_post_empty t = v_empty t
   \<and> q_pre_incr t + q_testing t + q_post_full t + q_unlock_board t + q_decr t
       + q_test_empty t + q_post_empty t + q_unlock_unboard t
       = (if v_locked t then 1 else 0)"

text \<open>
  The permits posted and the signal consumed, read off the ferry's position. After a
  \<open>break\<close> the ferry is either where line 74 left it or where line 86 left it.
\<close>

fun phases :: "fpc \<Rightarrow> (nat \<times> nat \<times> bool) list" where
  "phases F_arrive_first = [(0, 0, False)]"
| "phases F_check_time = [(0, 0, False)]"
| "phases (F_post_board i) = [(i, 0, False)]"
| "phases F_wait_full = [(FERRY_CAPACITY, 0, False)]"
| "phases F_check_depart = [(FERRY_CAPACITY, 0, True)]"
| "phases F_print_leave = [(FERRY_CAPACITY, 0, True)]"
| "phases F_sleep_cross = [(FERRY_CAPACITY, 0, True)]"
| "phases F_print_arrive = [(FERRY_CAPACITY, 0, True)]"
| "phases (F_post_unboard i) = [(FERRY_CAPACITY, i, True)]"
| "phases F_wait_empty = [(FERRY_CAPACITY, FERRY_CAPACITY, True)]"
| "phases F_exit = [(0, 0, False), (FERRY_CAPACITY, 0, True)]"

definition proto :: "nat \<Rightarrow> nat \<Rightarrow> bool \<Rightarrow> state \<Rightarrow> event list \<Rightarrow> bool" where
  "proto kb ku fc s tr \<longleftrightarrow>
     length (car_pcs s) = FERRY_CAPACITY
   \<and> balanced FERRY_CAPACITY kb ku fc (census_of s tr)"

definition gate_inv :: "state \<Rightarrow> event list \<Rightarrow> bool" where
  "gate_inv s tr \<longleftrightarrow>
     (\<exists>(kb, ku, fc) \<in> set (phases (ferry_pc s)). proto kb ku fc s tr)"

section \<open>Executions from the initial state\<close>

definition feasible :: "action list \<Rightarrow> bool" where
  "feasible acts = (exec acts (init, []) \<noteq> None)"

definition state_after :: "action list \<Rightarrow> state" where
  "state_after acts = (case exec acts (init, []) of Some (s, tr) \<Rightarrow> s | None \<Rightarrow> init)"

definition history :: "action list \<Rightarrow> event list" where
  "history acts = (case exec acts (init, []) of Some (s, tr) \<Rightarrow> tr | None \<Rightarrow> [])"

text \<open>
  \<open>every_event Q tr\<close>: each statement of the execution satisfies \<open>Q\<close> with respect to
  the part of the execution that came before it.
\<close>

fun every_event :: "(label \<Rightarrow> event list \<Rightarrow> bool) \<Rightarrow> event list \<Rightarrow> bool" where
  "every_event Q [] = True"
| "every_event Q (ev # tr) = (Q (snd ev) tr \<and> every_event Q tr)"

fun ferry_events :: "event list \<Rightarrow> (real \<times> fpc) list" where
  "ferry_events [] = []"
| "ferry_events ((t, L_ferry p) # tr) = (t, p) # ferry_events tr"
| "ferry_events ((t, L_car i p) # tr) = ferry_events tr"

text \<open>
  \<open>trail strict i ps tr\<close>: going back in time, the statements car \<open>i\<close> has executed
  last are \<open>ps\<close> (newest first); with \<open>strict\<close>, no other car has executed the
  increment of line 129 or the decrement of line 148 in between.
\<close>

fun trail :: "bool \<Rightarrow> nat \<Rightarrow> cpc list \<Rightarrow> event list \<Rightarrow> bool" where
  "trail strict i [] tr = True"
| "trail strict i (p # ps) [] = False"
| "trail strict i (p # ps) ((t, L_ferry q) # tr) = trail strict i (p # ps) tr"
| "trail strict i (p # ps) ((t, L_car j q) # tr) =
     (if j = i then q = p \<and> trail strict i ps tr
      else (strict \<longrightarrow> q \<noteq> C_incr \<and> q \<noteq> C_decr) \<and> trail strict i (p # ps) tr)"

subsection \<open>Properties of single statements within an execution\<close>

text \<open>The statements a car executes while it holds \<open>car_count_mutex\<close>.\<close>

fun in_region :: "cpc \<Rightarrow> bool" where
  "in_region C_usleep_board = True"
| "in_region C_incr = True"
| "in_region C_print_entered = True"
| "in_region C_test_full = True"
| "in_region C_post_full = True"
| "in_region C_unlock_board = True"
| "in_region C_decr = True"
| "in_region C_test_empty = True"
| "in_region C_post_empty = True"
| "in_region C_unlock_unboard = True"
| "in_region p = False"

text \<open>
  A signal is posted by the car whose own update of the counter was the last one:
  before \<open>sem_post(sem_full)\<close> the car ran the increment, the log call and the test, and
  before \<open>sem_post(sem_empty)\<close> the decrement and the test, with no update of the counter
  by another car in between.
\<close>

fun signal_by_last :: "label \<Rightarrow> event list \<Rightarrow> bool" where
  "signal_by_last (L_car i p) before =
     ((p = C_post_full \<longrightarrow> trail True i [C_test_full, C_print_entered, C_incr] before)
    \<and> (p = C_post_empty \<longrightarrow> trail True i [C_test_empty, C_decr] before))"
| "signal_by_last (L_ferry p) before = True"

definition signals_once :: "event list \<Rightarrow> bool" where
  "signals_once cyc \<longleftrightarrow>
     occ (by_car C_post_full) cyc = 1 \<and> occ (by_car C_post_empty) cyc = 1"

definition round_trip :: "event list \<Rightarrow> bool" where
  "round_trip cyc \<longleftrightarrow>
     occ (by_car C_incr) cyc = FERRY_CAPACITY \<and> occ (by_car C_decr) cyc = FERRY_CAPACITY"

text \<open>
  The unboarding of a car: when it locks the mutex (line 147) its last three statements
  were the wait for the permit, the pause and the log call of lines 140--144; its test
  of line 151 follows its own lock and decrement, and its post of line 152 that test,
  with no update of the counter by another car in between.
\<close>

fun left_then_decr :: "label \<Rightarrow> event list \<Rightarrow> bool" where
  "left_then_decr (L_car i p) before =
     ((p = C_lock_unboard \<longrightarrow>
         trail False i [C_print_left, C_usleep_unboard, C_wait_unboard] before)
    \<and> (p = C_test_empty \<longrightarrow> trail True i [C_decr, C_lock_unboard] before)
    \<and> (p = C_post_empty \<longrightarrow> trail True i [C_test_empty, C_decr, C_lock_unboard] before))"
| "left_then_decr (L_ferry p) before = True"

text \<open>
  The ferry's checks of the clock: the first permit of a boarding phase directly follows
  a check of line 74 that found the time not up, and the departure message directly
  follows a check of line 86 that found the time not up, itself directly after the
  return of \<open>sem_wait(sem_full)\<close>.
\<close>

fun checked_first :: "label \<Rightarrow> event list \<Rightarrow> bool" where
  "checked_first (L_ferry p) before =
     ((p = F_post_board 0 \<longrightarrow>
         (case ferry_events before of
            (t1, q1) # rest \<Rightarrow> q1 = F_check_time \<and> t1 < real PROGRAM_RUNTIME
          | [] \<Rightarrow> False))
    \<and> (p = F_print_leave \<longrightarrow>
         (case ferry_events before of
            (t1, q1) # (t0, q0) # rest \<Rightarrow>
              q1 = F_check_depart \<and> t1 < real PROGRAM_RUNTIME \<and> q0 = F_wait_full
          | _ \<Rightarrow> False)))"
| "checked_first (L_car i p) before = True"

text \<open>
  Permits before use: a car's \<open>sem_wait(sem_board)\<close> returns only when the ferry has
  posted more permits than cars have taken, and the ferry's \<open>sem_wait(sem_full)\<close> only
  when the cars have posted \<open>sem_full\<close> more often than the ferry has taken it.
\<close>

fun board_post :: "label \<Rightarrow> bool" where
  "board_post (L_ferry (F_post_board k)) = (k < FERRY_CAPACITY)"
| "board_post l = False"

fun permit_first :: "label \<Rightarrow> event list \<Rightarrow> bool" where
  "permit_first (L_car i p) before =
     (p = C_wait_board \<longrightarrow> occ (by_car C_wait_board) before < occ board_post before)"
| "permit_first (L_ferry p) before =
     (p = F_wait_full \<longrightarrow>
        occ (\<lambda>l. l = L_ferry F_wait_full) before < occ (by_car C_post_full) before)"

subsection \<open>What the position of a thread says about the execution so far\<close>

fun recent :: "cpc \<Rightarrow> cpc list" where
  "recent C_usleep_board = [C_lock_board]"
| "recent C_incr = [C_usleep_board, C_lock_board]"
| "recent C_print_entered = [C_incr, C_usleep_board, C_lock_board]"
| "recent C_test_full = [C_print_entered, C_incr, C_usleep_board, C_lock_board]"
| "recent C_post_full = [C_test_full, C_print_entered, C_incr, C_usleep_board, C_lock_board]"
| "recent C_decr = [C_lock_unboard]"
| "recent C_test_empty = [C_decr, C_lock_unboard]"
| "recent C_post_empty = [C_test_empty, C_decr, C_lock_unboard]"
| "recent p = []"

fun prior :: "cpc \<Rightarrow> cpc list" where
  "prior C_usleep_unboard = [C_wait_unboard]"
| "prior C_print_left = [C_usleep_unboard, C_wait_unboard]"
| "prior C_lock_unboard = [C_print_left, C_usleep_unboard, C_wait_unboard]"
| "prior p = []"

definition owner_inv :: "state \<Rightarrow> bool" where
  "owner_inv s \<longleftrightarrow>
     (\<forall>i. car_count_mutex s = Some i \<longrightarrow> i < length (car_pcs s))
   \<and> (\<forall>i < length (car_pcs s). in_region (car_pcs s ! i) = (car_count_mutex s = Some i))"

definition trail_inv :: "bool \<Rightarrow> (cpc \<Rightarrow> cpc list) \<Rightarrow> state \<Rightarrow> event list \<Rightarrow> bool" where
  "trail_inv strict f s tr \<longleftrightarrow>
     (\<forall>i < length (car_pcs s). trail strict i (f (car_pcs s ! i)) tr)"

definition ferry_hist :: "state \<Rightarrow> event list \<Rightarrow> bool" where
  "ferry_hist s tr \<longleftrightarrow>
     (ferry_pc s = F_post_board 0 \<longrightarrow>
        (\<exists>t1 rest. ferry_events tr = (t1, F_check_time) # rest \<and> t1 < real PROGRAM_RUNTIME))
   \<and> (ferry_pc s = F_check_depart \<longrightarrow>
        (\<exists>t0 rest. ferry_events tr = (t0, F_wait_full) # rest))
   \<and> (ferry_pc s = F_print_leave \<longrightarrow>
        (\<exists>t1 t0 rest. ferry_events tr = (t1, F_check_depart) # (t0, F_wait_full) # rest
           \<and> t1 < real PROGRAM_RUNTIME))"

definition sem_hist :: "state \<Rightarrow> event list \<Rightarrow> bool" where
  "sem_hist s tr \<longleftrightarrow>
     occ (by_car C_wait_board) tr + sem_board s = occ board_post tr
   \<and> occ (\<lambda>l. l = L_ferry F_wait_full) tr + sem_full s = occ (by_car C_post_full) tr"

text \<open>The three invariants about cars, together.\<close>

definition car_hist :: "state \<Rightarrow> event list \<Rightarrow> bool" where
  "car_hist s tr \<longleftrightarrow> owner_inv s \<and> trail_inv True recent s tr \<and> trail_inv False prior s tr"

text \<open>Every line printed so far carries a time stamp within the run duration.\<close>

definition log_in_time :: "state \<Rightarrow> bool" where
  "log_in_time s \<longleftrightarrow> (\<forall>l \<in> set (stdout s). line_time l \<le> real PROGRAM_RUNTIME)"

section \<open>\<open>main\<close>: set-up and exit status (lines 164--233)\<close>










section \<open>Sample executions and environments\<close>

text \<open>
  Car \<open>i\<close> runs from its start to the end of its boarding (lines 109--136); its pause
  of line 127 lasts 10 ms.
\<close>

definition boards :: "nat \<Rightarrow> action list" where
  "boards i = replicate 4 (Run_car i) @ [Tick 10000] @ replicate 5 (Run_car i)"

text \<open>
  Car \<open>i\<close> runs from the wait of line 140 to the end of its unboarding (line 154); its
  pause of line 143 lasts 5 ms.
\<close>

definition unboards :: "nat \<Rightarrow> action list" where
  "unboards i = [Run_car i, Tick 5000] @ replicate 6 (Run_car i)"

text \<open>The ferry arrives and opens boarding (lines 70--80).\<close>

definition ferry_opens :: "action list" where
  "ferry_opens = replicate 8 Run_ferry"

text \<open>The five cars board one after the other; the last one posts \<open>sem_full\<close>.\<close>

definition boarding_run :: "action list" where
  "boarding_run = ferry_opens @ boards 0 @ boards 1 @ boards 2 @ boards 3 @ boards 4 @ [Run_car 4]"

text \<open>
  The ferry leaves, crosses for 3 s and opens unboarding; the cars leave one after the
  other, the last one posts \<open>sem_empty\<close>; the cycle ends.
\<close>

definition cycle_run :: "action list" where
  "cycle_run =
     boarding_run @ replicate 3 Run_ferry @ [Tick 3000000] @ replicate 8 Run_ferry
     @ unboards 0 @ unboards 1 @ unboards 2 @ unboards 3 @ unboards 4
     @ [Run_car 4, Run_ferry]"

text \<open>The ferry opens boarding; car 0 takes a permit, locks the mutex and pauses.\<close>

definition pause_run :: "action list" where
  "pause_run = replicate 3 Run_ferry @ replicate 4 (Run_car 0)"

text \<open>
  The fifth car is late: its boarding ends at 59.999999 s. The ferry's wait of line 83
  returns and the check of line 86 passes; two microseconds later the ferry logs its
  departure.
\<close>

definition late_run :: "action list" where
  "late_run =
     ferry_opens @ boards 0 @ boards 1 @ boards 2 @ boards 3 @ [Tick 59949999] @ boards 4
     @ [Run_car 4, Run_ferry, Run_ferry, Tick 2, Run_ferry]"

text \<open>
  The fifth car is later still: its boarding ends at 60 s, and the ferry is about to run
  the check of line 86.
\<close>

definition timeout_run :: "action list" where
  "timeout_run =
     ferry_opens @ boards 0 @ boards 1 @ boards 2 @ boards 3 @ [Tick 59950000] @ boards 4
     @ [Run_car 4, Run_ferry]"





section \<open>Basic facts\<close>

lemma FERRY_CAPACITY_pos: "0 < FERRY_CAPACITY"
  by (simp add: FERRY_CAPACITY_def)

lemma filter_nth_pos: "i < length xs \<Longrightarrow> P (xs ! i) \<Longrightarrow> 0 < length (filter P xs)"
  by (induction xs arbitrary: i) (auto simp: nth_Cons split: nat.splits)

lemma filter_update_length:
  "i < length xs \<Longrightarrow>
   length (filter P (xs[i := q])) =
     (if P (xs ! i) = P q then length (filter P xs)
      else if P q then length (filter P xs) + 1 else length (filter P xs) - 1)"
proof (induction xs arbitrary: i)
  case Nil
  then show ?case by simp
next
  case (Cons x xs)
  show ?case
  proof (cases i)
    case 0
    then show ?thesis by simp
  next
    case (Suc j)
    then have j: "j < length xs" using Cons.prems by simp
    moreover have "P (xs ! j) \<Longrightarrow> 0 < length (filter P xs)"
      using j by (rule filter_nth_pos)
    ultimately show ?thesis using Suc Cons.IH [of j] by auto
  qed
qed

lemma num_goto:
  "i < length (car_pcs s) \<Longrightarrow>
   num S (goto i q s) =
     (if (car_pcs s ! i \<in> S) = (q \<in> S) then num S s
      else if q \<in> S then num S s + 1 else num S s - 1)"
  by (simp add: num_def goto_def filter_update_length)

lemma num_pos: "i < length (car_pcs s) \<Longrightarrow> car_pcs s ! i \<in> S \<Longrightarrow> 0 < num S s"
  unfolding num_def by (rule filter_nth_pos)

lemma num_fields [simp]:
  "num S (s\<lparr>sem_board := b\<rparr>) = num S s"
  "num S (s\<lparr>sem_full := f\<rparr>) = num S s"
  "num S (s\<lparr>sem_unboard := u\<rparr>) = num S s"
  "num S (s\<lparr>sem_empty := e\<rparr>) = num S s"
  "num S (s\<lparr>cars_on_board := c\<rparr>) = num S s"
  "num S (s\<lparr>car_count_mutex := m\<rparr>) = num S s"
  "num S (s\<lparr>clock_us := t\<rparr>) = num S s"
  "num S (s\<lparr>ferry_pc := fp\<rparr>) = num S s"
  "num S (s\<lparr>stdout := out\<rparr>) = num S s"
  by (simp_all add: num_def)

lemma goto_fields [simp]:
  "car_count_mutex (goto i q s) = car_count_mutex s"
  "sem_board (goto i q s) = sem_board s"
  "sem_full (goto i q s) = sem_full s"
  "sem_unboard (goto i q s) = sem_unboard s"
  "sem_empty (goto i q s) = sem_empty s"
  "cars_on_board (goto i q s) = cars_on_board s"
  "clock_us (goto i q s) = clock_us s"
  "ferry_pc (goto i q s) = ferry_pc s"
  "stdout (goto i q s) = stdout s"
  "length (car_pcs (goto i q s)) = length (car_pcs s)"
  by (simp_all add: goto_def)

lemma emit_fields [simp]:
  "car_pcs (emit m n s) = car_pcs s"
  "car_count_mutex (emit m n s) = car_count_mutex s"
  "sem_board (emit m n s) = sem_board s"
  "sem_full (emit m n s) = sem_full s"
  "sem_unboard (emit m n s) = sem_unboard s"
  "sem_empty (emit m n s) = sem_empty s"
  "cars_on_board (emit m n s) = cars_on_board s"
  "clock_us (emit m n s) = clock_us s"
  "ferry_pc (emit m n s) = ferry_pc s"
  by (simp_all add: emit_def split: option.splits)

lemma num_emit [simp]: "num S (emit m n s) = num S s"
  by (simp add: num_def)

lemma occ_Cons [simp]: "occ P (ev # tr) = (if P (snd ev) then occ P tr + 1 else occ P tr)"
  by (simp add: occ_def)

lemma occ_Nil [simp]: "occ P [] = 0"
  by (simp add: occ_def)

lemma current_cycle_Cons [simp]:
  "current_cycle (ev # tr) = (if snd ev = L_ferry F_wait_empty then [] else ev # current_cycle tr)"
  by (simp add: current_cycle_def)

lemma current_cycle_Nil [simp]: "current_cycle [] = []"
  by (simp add: current_cycle_def)

section \<open>Steps on the census\<close>

lemma bal_acquire_board:
  "balanced N kb ku fc t \<Longrightarrow> 0 < v_board t \<Longrightarrow> 0 < q_away t \<Longrightarrow>
   balanced N kb ku fc (t\<lparr>q_away := q_away t - 1, q_lock_board := q_lock_board t + 1,
     v_board := v_board t - 1\<rparr>)"
  unfolding balanced_def by (auto split: if_splits)

lemma bal_lock_board:
  "balanced N kb ku fc t \<Longrightarrow> \<not> v_locked t \<Longrightarrow> 0 < q_lock_board t \<Longrightarrow>
   balanced N kb ku fc (t\<lparr>q_lock_board := q_lock_board t - 1, q_pre_incr := q_pre_incr t + 1,
     v_locked := True\<rparr>)"
  unfolding balanced_def by (auto split: if_splits)

lemma bal_incr:
  "balanced N kb ku fc t \<Longrightarrow> 0 < q_pre_incr t \<Longrightarrow>
   balanced N kb ku fc (t\<lparr>q_pre_incr := q_pre_incr t - 1, q_testing := q_testing t + 1,
     v_count := v_count t + 1, h_incr := h_incr t + 1\<rparr>)"
  unfolding balanced_def by (auto split: if_splits)

lemma bal_test_full_yes:
  "balanced N kb ku fc t \<Longrightarrow> 0 < q_testing t \<Longrightarrow> v_count t = int N \<Longrightarrow>
   balanced N kb ku fc (t\<lparr>q_testing := q_testing t - 1, q_post_full := q_post_full t + 1\<rparr>)"
  unfolding balanced_def by (auto split: if_splits)

lemma bal_test_full_no:
  "balanced N kb ku fc t \<Longrightarrow> 0 < q_testing t \<Longrightarrow> v_count t \<noteq> int N \<Longrightarrow>
   balanced N kb ku fc (t\<lparr>q_testing := q_testing t - 1, q_unlock_board := q_unlock_board t + 1\<rparr>)"
  unfolding balanced_def by (auto split: if_splits)

lemma bal_post_full:
  "balanced N kb ku fc t \<Longrightarrow> 0 < q_post_full t \<Longrightarrow>
   balanced N kb ku fc (t\<lparr>q_post_full := q_post_full t - 1,
     q_unlock_board := q_unlock_board t + 1, v_full := v_full t + 1,
     h_post_full := h_post_full t + 1\<rparr>)"
  unfolding balanced_def by (auto split: if_splits)

lemma bal_unlock_board:
  "balanced N kb ku fc t \<Longrightarrow> 0 < q_unlock_board t \<Longrightarrow>
   balanced N kb ku fc (t\<lparr>q_unlock_board := q_unlock_board t - 1,
     q_wait_unboard := q_wait_unboard t + 1, v_locked := False\<rparr>)"
  unfolding balanced_def by (auto split: if_splits)

lemma bal_acquire_unboard:
  "balanced N kb ku fc t \<Longrightarrow> 0 < v_unboard t \<Longrightarrow> 0 < q_wait_unboard t \<Longrightarrow>
   balanced N kb ku fc (t\<lparr>q_wait_unboard := q_wait_unboard t - 1, q_leaving := q_leaving t + 1,
     v_unboard := v_unboard t - 1\<rparr>)"
  unfolding balanced_def by (auto split: if_splits)

lemma bal_lock_unboard:
  "balanced N kb ku fc t \<Longrightarrow> \<not> v_locked t \<Longrightarrow> 0 < q_leaving t \<Longrightarrow>
   balanced N kb ku fc (t\<lparr>q_leaving := q_leaving t - 1, q_decr := q_decr t + 1,
     v_locked := True\<rparr>)"
  unfolding balanced_def by (auto split: if_splits)

lemma bal_decr:
  "balanced N kb ku fc t \<Longrightarrow> 0 < q_decr t \<Longrightarrow>
   balanced N kb ku fc (t\<lparr>q_decr := q_decr t - 1, q_test_empty := q_test_empty t + 1,
     v_count := v_count t - 1, h_decr := h_decr t + 1\<rparr>)"
  unfolding balanced_def by (auto split: if_splits)

lemma bal_test_empty_yes:
  "balanced N kb ku fc t \<Longrightarrow> 0 < q_test_empty t \<Longrightarrow> v_count t = 0 \<Longrightarrow>
   balanced N kb ku fc (t\<lparr>q_test_empty := q_test_empty t - 1, q_post_empty := q_post_empty t + 1\<rparr>)"
  unfolding balanced_def by (auto split: if_splits)

lemma bal_test_empty_no:
  "balanced N kb ku fc t \<Longrightarrow> 0 < q_test_empty t \<Longrightarrow> v_count t \<noteq> 0 \<Longrightarrow>
   balanced N kb ku fc (t\<lparr>q_test_empty := q_test_empty t - 1,
     q_unlock_unboard := q_unlock_unboard t + 1\<rparr>)"
  unfolding balanced_def by (auto split: if_splits)

lemma bal_post_empty:
  "balanced N kb ku fc t \<Longrightarrow> 0 < q_post_empty t \<Longrightarrow>
   balanced N kb ku fc (t\<lparr>q_post_empty := q_post_empty t - 1,
     q_unlock_unboard := q_unlock_unboard t + 1, v_empty := v_empty t + 1,
     h_post_empty := h_post_empty t + 1\<rparr>)"
  unfolding balanced_def by (auto split: if_splits)

lemma bal_unlock_unboard:
  "balanced N kb ku fc t \<Longrightarrow> 0 < q_unlock_unboard t \<Longrightarrow>
   balanced N kb ku fc (t\<lparr>q_unlock_unboard := q_unlock_unboard t - 1,
     q_away := q_away t + 1, v_locked := False\<rparr>)"
  unfolding balanced_def by (auto split: if_splits)

lemma bal_ferry_post_board:
  "balanced N kb 0 False t \<Longrightarrow> kb < N \<Longrightarrow>
   balanced N (kb + 1) 0 False (t\<lparr>v_board := v_board t + 1\<rparr>)"
  unfolding balanced_def by (auto split: if_splits)

lemma bal_ferry_take_full:
  "balanced N kb 0 False t \<Longrightarrow> 0 < v_full t \<Longrightarrow>
   balanced N N 0 True (t\<lparr>v_full := v_full t - 1\<rparr>)"
  unfolding balanced_def by (auto split: if_splits)

lemma bal_ferry_post_unboard:
  "balanced N N ku True t \<Longrightarrow> ku < N \<Longrightarrow>
   balanced N N (ku + 1) True (t\<lparr>v_unboard := v_unboard t + 1\<rparr>)"
  unfolding balanced_def by (auto split: if_splits)

lemma bal_ferry_take_empty:
  "balanced N kb ku fc t \<Longrightarrow> 0 < v_empty t \<Longrightarrow>
   balanced N 0 0 False (t\<lparr>v_empty := v_empty t - 1, h_incr := 0, h_decr := 0,
     h_post_full := 0, h_post_empty := 0\<rparr>)"
  unfolding balanced_def by (auto split: if_splits)

section \<open>The invariant of the protocol\<close>

lemma proto_car_step:
  assumes inv: "proto kb ku fc s tr" and st: "car_step i s = Some s'"
    and i: "i < length (car_pcs s)"
  shows "proto kb ku fc s' ((t, L_car i (car_pcs s ! i)) # tr)"
proof -
  let ?t = "census_of s tr"
  have len: "length (car_pcs s) = FERRY_CAPACITY"
    and bal: "balanced FERRY_CAPACITY kb ku fc ?t"
    using inv by (simp_all add: proto_def)
  have len': "length (car_pcs s') = FERRY_CAPACITY"
    using st len by (auto simp: car_step_def split: cpc.splits if_splits)
  show ?thesis
  proof (cases "car_pcs s ! i")
    case C_start
    then have "census_of s' ((t, L_car i (car_pcs s ! i)) # tr) = ?t"
      using st i by (auto simp: car_step_def census_of_def num_goto split: if_splits)
    then show ?thesis using bal len' by (simp add: proto_def)
  next
    case C_check_time
    then have "census_of s' ((t, L_car i (car_pcs s ! i)) # tr) = ?t"
      using st i by (auto simp: car_step_def census_of_def num_goto split: if_splits)
    then show ?thesis using bal len' by (simp add: proto_def)
  next
    case C_wait_board
    have pos: "0 < q_away ?t"
      using num_pos [OF i, of "{C_start, C_check_time, C_wait_board, C_usleep_away, C_exit}"] C_wait_board by (simp add: census_of_def)
    have g: "0 < sem_board s"
      using st C_wait_board by (simp add: car_step_def split: if_splits)
    then have g': "0 < v_board ?t" by (simp add: census_of_def)
    have "balanced FERRY_CAPACITY kb ku fc (census_of s' ((t, L_car i (car_pcs s ! i)) # tr))"
      using bal_acquire_board [OF bal g' pos] st i C_wait_board g
      by (auto simp: car_step_def census_of_def num_goto)
    then show ?thesis using len' by (simp add: proto_def)
  next
    case C_lock_board
    have pos: "0 < q_lock_board ?t"
      using num_pos [OF i, of "{C_lock_board}"] C_lock_board by (simp add: census_of_def)
    have g: "car_count_mutex s = None"
      using st C_lock_board by (simp add: car_step_def split: if_splits)
    then have g': "\<not> v_locked ?t" by (simp add: census_of_def)
    have "balanced FERRY_CAPACITY kb ku fc (census_of s' ((t, L_car i (car_pcs s ! i)) # tr))"
      using bal_lock_board [OF bal g' pos] st i C_lock_board g
      by (auto simp: car_step_def census_of_def num_goto)
    then show ?thesis using len' by (simp add: proto_def)
  next
    case C_usleep_board
    then have "census_of s' ((t, L_car i (car_pcs s ! i)) # tr) = ?t"
      using st i by (auto simp: car_step_def census_of_def num_goto split: if_splits)
    then show ?thesis using bal len' by (simp add: proto_def)
  next
    case C_incr
    have pos: "0 < q_pre_incr ?t"
      using num_pos [OF i, of "{C_usleep_board, C_incr}"] C_incr by (simp add: census_of_def)
    have "balanced FERRY_CAPACITY kb ku fc (census_of s' ((t, L_car i (car_pcs s ! i)) # tr))"
      using bal_incr [OF bal pos] st i C_incr
      by (auto simp: car_step_def census_of_def num_goto)
    then show ?thesis using len' by (simp add: proto_def)
  next
    case C_print_entered
    then have "census_of s' ((t, L_car i (car_pcs s ! i)) # tr) = ?t"
      using st i by (auto simp: car_step_def census_of_def num_goto split: if_splits)
    then show ?thesis using bal len' by (simp add: proto_def)
  next
    case C_test_full
    have pos: "0 < q_testing ?t"
      using num_pos [OF i, of "{C_print_entered, C_test_full}"] C_test_full by (simp add: census_of_def)
    show ?thesis
    proof (cases "cars_on_board s = int FERRY_CAPACITY")
      case True
      then have c: "v_count ?t = int FERRY_CAPACITY" by (simp add: census_of_def)
      have "balanced FERRY_CAPACITY kb ku fc (census_of s' ((t, L_car i (car_pcs s ! i)) # tr))"
        using bal_test_full_yes [OF bal pos c] st i C_test_full True
        by (auto simp: car_step_def census_of_def num_goto)
      then show ?thesis using len' by (simp add: proto_def)
    next
      case False
      then have c: "v_count ?t \<noteq> int FERRY_CAPACITY" by (simp add: census_of_def)
      have "balanced FERRY_CAPACITY kb ku fc (census_of s' ((t, L_car i (car_pcs s ! i)) # tr))"
        using bal_test_full_no [OF bal pos c] st i C_test_full False
        by (auto simp: car_step_def census_of_def num_goto)
      then show ?thesis using len' by (simp add: proto_def)
    qed
  next
    case C_post_full
    have pos: "0 < q_post_full ?t"
      using num_pos [OF i, of "{C_post_full}"] C_post_full by (simp add: census_of_def)
    have "balanced FERRY_CAPACITY kb ku fc (census_of s' ((t, L_car i (car_pcs s ! i)) # tr))"
      using bal_post_full [OF bal pos] st i C_post_full
      by (auto simp: car_step_def census_of_def num_goto)
    then show ?thesis using len' by (simp add: proto_def)
  next
    case C_unlock_board
    have pos: "0 < q_unlock_board ?t"
      using num_pos [OF i, of "{C_unlock_board}"] C_unlock_board by (simp add: census_of_def)
    have "balanced FERRY_CAPACITY kb ku fc (census_of s' ((t, L_car i (car_pcs s ! i)) # tr))"
      using bal_unlock_board [OF bal pos] st i C_unlock_board
      by (auto simp: car_step_def census_of_def num_goto)
    then show ?thesis using len' by (simp add: proto_def)
  next
    case C_wait_unboard
    have pos: "0 < q_wait_unboard ?t"
      using num_pos [OF i, of "{C_wait_unboard}"] C_wait_unboard by (simp add: census_of_def)
    have g: "0 < sem_unboard s"
      using st C_wait_unboard by (simp add: car_step_def split: if_splits)
    then have g': "0 < v_unboard ?t" by (simp add: census_of_def)
    have "balanced FERRY_CAPACITY kb ku fc (census_of s' ((t, L_car i (car_pcs s ! i)) # tr))"
      using bal_acquire_unboard [OF bal g' pos] st i C_wait_unboard g
      by (auto simp: car_step_def census_of_def num_goto)
    then show ?thesis using len' by (simp add: proto_def)
  next
    case C_usleep_unboard
    then have "census_of s' ((t, L_car i (car_pcs s ! i)) # tr) = ?t"
      using st i by (auto simp: car_step_def census_of_def num_goto split: if_splits)
    then show ?thesis using bal len' by (simp add: proto_def)
  next
    case C_print_left
    then have "census_of s' ((t, L_car i (car_pcs s ! i)) # tr) = ?t"
      using st i by (auto simp: car_step_def census_of_def num_goto split: if_splits)
    then show ?thesis using bal len' by (simp add: proto_def)
  next
    case C_lock_unboard
    have pos: "0 < q_leaving ?t"
      using num_pos [OF i, of "{C_usleep_unboard, C_print_left, C_lock_unboard}"] C_lock_unboard by (simp add: census_of_def)
    have g: "car_count_mutex s = None"
      using st C_lock_unboard by (simp add: car_step_def split: if_splits)
    then have g': "\<not> v_locked ?t" by (simp add: census_of_def)
    have "balanced FERRY_CAPACITY kb ku fc (census_of s' ((t, L_car i (car_pcs s ! i)) # tr))"
      using bal_lock_unboard [OF bal g' pos] st i C_lock_unboard g
      by (auto simp: car_step_def census_of_def num_goto)
    then show ?thesis using len' by (simp add: proto_def)
  next
    case C_decr
    have pos: "0 < q_decr ?t"
      using num_pos [OF i, of "{C_decr}"] C_decr by (simp add: census_of_def)
    have "balanced FERRY_CAPACITY kb ku fc (census_of s' ((t, L_car i (car_pcs s ! i)) # tr))"
      using bal_decr [OF bal pos] st i C_decr
      by (auto simp: car_step_def census_of_def num_goto)
    then show ?thesis using len' by (simp add: proto_def)
  next
    case C_test_empty
    have pos: "0 < q_test_empty ?t"
      using num_pos [OF i, of "{C_test_empty}"] C_test_empty by (simp add: census_of_def)
    show ?thesis
    proof (cases "cars_on_board s = 0")
      case True
      then have c: "v_count ?t = 0" by (simp add: census_of_def)
      have "balanced FERRY_CAPACITY kb ku fc (census_of s' ((t, L_car i (car_pcs s ! i)) # tr))"
        using bal_test_empty_yes [OF bal pos c] st i C_test_empty True
        by (auto simp: car_step_def census_of_def num_goto)
      then show ?thesis using len' by (simp add: proto_def)
    next
      case False
      then have c: "v_count ?t \<noteq> 0" by (simp add: census_of_def)
      have "balanced FERRY_CAPACITY kb ku fc (census_of s' ((t, L_car i (car_pcs s ! i)) # tr))"
        using bal_test_empty_no [OF bal pos c] st i C_test_empty False
        by (auto simp: car_step_def census_of_def num_goto)
      then show ?thesis using len' by (simp add: proto_def)
    qed
  next
    case C_post_empty
    have pos: "0 < q_post_empty ?t"
      using num_pos [OF i, of "{C_post_empty}"] C_post_empty by (simp add: census_of_def)
    have "balanced FERRY_CAPACITY kb ku fc (census_of s' ((t, L_car i (car_pcs s ! i)) # tr))"
      using bal_post_empty [OF bal pos] st i C_post_empty
      by (auto simp: car_step_def census_of_def num_goto)
    then show ?thesis using len' by (simp add: proto_def)
  next
    case C_unlock_unboard
    have pos: "0 < q_unlock_unboard ?t"
      using num_pos [OF i, of "{C_unlock_unboard}"] C_unlock_unboard by (simp add: census_of_def)
    have "balanced FERRY_CAPACITY kb ku fc (census_of s' ((t, L_car i (car_pcs s ! i)) # tr))"
      using bal_unlock_unboard [OF bal pos] st i C_unlock_unboard
      by (auto simp: car_step_def census_of_def num_goto)
    then show ?thesis using len' by (simp add: proto_def)
  next
    case C_usleep_away
    then have "census_of s' ((t, L_car i (car_pcs s ! i)) # tr) = ?t"
      using st i by (auto simp: car_step_def census_of_def num_goto split: if_splits)
    then show ?thesis using bal len' by (simp add: proto_def)
  next
    case C_exit
    then show ?thesis using st by (simp add: car_step_def)
  qed
qed

lemma gate_inv_ferry_step:
  assumes inv: "gate_inv s tr" and st: "ferry_step s = Some s'"
  shows "gate_inv s' ((t, L_ferry (ferry_pc s)) # tr)"
proof (cases "ferry_pc s")
  case F_arrive_first
  then show ?thesis using inv st
    by (auto simp: gate_inv_def proto_def ferry_step_def census_of_def)
next
  case F_check_time
  then show ?thesis using inv st
    by (auto simp: gate_inv_def proto_def ferry_step_def census_of_def split: if_splits)
next
  case (F_post_board k)
  then have bal: "balanced FERRY_CAPACITY k 0 False (census_of s tr)"
    and len: "length (car_pcs s) = FERRY_CAPACITY"
    using inv by (simp_all add: gate_inv_def proto_def)
  show ?thesis
  proof (cases "k < FERRY_CAPACITY")
    case True
    then show ?thesis
      using bal_ferry_post_board [OF bal True] st len F_post_board
      by (auto simp: gate_inv_def proto_def ferry_step_def census_of_def)
  next
    case False
    moreover have "k \<le> FERRY_CAPACITY" using bal by (simp add: balanced_def)
    ultimately have "k = FERRY_CAPACITY" by simp
    then show ?thesis
      using bal st len F_post_board
      by (auto simp: gate_inv_def proto_def ferry_step_def census_of_def)
  qed
next
  case F_wait_full
  then have bal: "balanced FERRY_CAPACITY FERRY_CAPACITY 0 False (census_of s tr)"
    and len: "length (car_pcs s) = FERRY_CAPACITY"
    using inv by (simp_all add: gate_inv_def proto_def)
  have g: "0 < sem_full s"
    using st F_wait_full by (simp add: ferry_step_def split: if_splits)
  then have "0 < v_full (census_of s tr)" by (simp add: census_of_def)
  from bal_ferry_take_full [OF bal this] show ?thesis
    using st len F_wait_full g
    by (auto simp: gate_inv_def proto_def ferry_step_def census_of_def)
next
  case F_check_depart
  then show ?thesis using inv st
    by (auto simp: gate_inv_def proto_def ferry_step_def census_of_def split: if_splits)
next
  case F_print_leave
  then show ?thesis using inv st
    by (auto simp: gate_inv_def proto_def ferry_step_def census_of_def)
next
  case F_sleep_cross
  then show ?thesis using inv st
    by (auto simp: gate_inv_def proto_def ferry_step_def census_of_def)
next
  case F_print_arrive
  then show ?thesis using inv st
    by (auto simp: gate_inv_def proto_def ferry_step_def census_of_def)
next
  case (F_post_unboard k)
  then have bal: "balanced FERRY_CAPACITY FERRY_CAPACITY k True (census_of s tr)"
    and len: "length (car_pcs s) = FERRY_CAPACITY"
    using inv by (simp_all add: gate_inv_def proto_def)
  show ?thesis
  proof (cases "k < FERRY_CAPACITY")
    case True
    then show ?thesis
      using bal_ferry_post_unboard [OF bal True] st len F_post_unboard
      by (auto simp: gate_inv_def proto_def ferry_step_def census_of_def)
  next
    case False
    moreover have "k \<le> FERRY_CAPACITY" using bal by (simp add: balanced_def)
    ultimately have "k = FERRY_CAPACITY" by simp
    then show ?thesis
      using bal st len F_post_unboard
      by (auto simp: gate_inv_def proto_def ferry_step_def census_of_def)
  qed
next
  case F_wait_empty
  then have bal: "balanced FERRY_CAPACITY FERRY_CAPACITY FERRY_CAPACITY True (census_of s tr)"
    and len: "length (car_pcs s) = FERRY_CAPACITY"
    using inv by (simp_all add: gate_inv_def proto_def)
  have g: "0 < sem_empty s"
    using st F_wait_empty by (simp add: ferry_step_def split: if_splits)
  then have "0 < v_empty (census_of s tr)" by (simp add: census_of_def)
  from bal_ferry_take_empty [OF bal this] show ?thesis
    using st len F_wait_empty g
    by (auto simp: gate_inv_def proto_def ferry_step_def census_of_def)
next
  case F_exit
  then show ?thesis using st by (simp add: ferry_step_def)
qed

lemma gate_inv_car_step:
  assumes "gate_inv s tr" and "car_step i s = Some s'" and "i < length (car_pcs s)"
  shows "gate_inv s' ((t, L_car i (car_pcs s ! i)) # tr)"
proof -
  have "ferry_pc s' = ferry_pc s"
    using assms(2) by (auto simp: car_step_def split: cpc.splits if_splits)
  then show ?thesis
    using assms proto_car_step [OF _ assms(2,3)]
    by (fastforce simp: gate_inv_def)
qed

lemma gate_inv_init: "gate_inv init []"
  by (simp add: gate_inv_def proto_def balanced_def census_of_def init_def num_def
      FERRY_CAPACITY_pos)

lemma gate_inv_step:
  assumes "gate_inv s tr" and "step a s = Some s'"
  shows "gate_inv s' (observe a s @ tr)"
proof (cases a)
  case (Tick d)
  then have s': "s' = s\<lparr>clock_us := clock_us s + d\<rparr>"
    using assms(2) by (simp split: if_splits)
  have "census_of s' tr = census_of s tr"
    unfolding s' by (simp add: census_of_def)
  then show ?thesis using assms(1) Tick
    by (simp add: gate_inv_def proto_def s')
next
  case Run_ferry
  then show ?thesis using assms gate_inv_ferry_step by simp
next
  case (Run_car i)
  then show ?thesis using assms gate_inv_car_step by (simp split: if_splits)
qed

lemma exec_invariant:
  assumes "exec acts (s, tr) = Some (s', tr')" and "I s tr"
    and "\<And>a s tr s'. I s tr \<Longrightarrow> step a s = Some s' \<Longrightarrow> I s' (observe a s @ tr)"
  shows "I s' tr'"
  using assms(1,2)
proof (induction acts arbitrary: s tr)
  case Nil
  then show ?case by simp
next
  case (Cons a acts)
  then obtain s1 where s1: "step a s = Some s1"
    and rest: "exec acts (s1, observe a s @ tr) = Some (s', tr')"
    by (auto split: option.splits)
  have "I s1 (observe a s @ tr)" using assms(3) Cons.prems(2) s1 by blast
  then show ?case using Cons.IH rest by blast
qed

lemma runs_gate_inv: "runs acts s tr \<Longrightarrow> gate_inv s tr"
  unfolding runs_def
  by (erule exec_invariant [where I = gate_inv]) (auto intro: gate_inv_init gate_inv_step)


section \<open>Properties of the simulation\<close>

lemma feasible_runs: "feasible acts \<Longrightarrow> runs acts (state_after acts) (history acts)"
  by (auto simp: feasible_def runs_def state_after_def history_def)

lemma feasible_gate_inv: "feasible acts \<Longrightarrow> gate_inv (state_after acts) (history acts)"
  by (rule runs_gate_inv [OF feasible_runs])

lemma balanced_count_bounds: "balanced N kb ku fc t \<Longrightarrow> 0 \<le> v_count t \<and> v_count t \<le> int N"
  unfolding balanced_def by auto

lemma balanced_crossing: "balanced N N 0 True t \<Longrightarrow> v_count t = int N"
  unfolding balanced_def by auto

text \<open>
  C1. In every state of every execution the counter \<open>cars_on_board\<close> lies between 0 and
  the capacity of the ferry.
\<close>

theorem capacity_invariant:
  "feasible acts \<Longrightarrow>
   0 \<le> cars_on_board (state_after acts)
   \<and> cars_on_board (state_after acts) \<le> int FERRY_CAPACITY"
proof -
  assume "feasible acts"
  then obtain kb ku fc where "proto kb ku fc (state_after acts) (history acts)"
    using feasible_gate_inv [of acts] by (auto simp: gate_inv_def)
  then have "balanced FERRY_CAPACITY kb ku fc (census_of (state_after acts) (history acts))"
    by (simp add: proto_def)
  from balanced_count_bounds [OF this] show ?thesis
    by (simp add: census_of_def)
qed

theorem capacity_invariant_witness:
  "feasible boarding_run \<and> cars_on_board (state_after boarding_run) = 5
   \<and> 0 \<le> cars_on_board (state_after boarding_run)
   \<and> cars_on_board (state_after boarding_run) \<le> int FERRY_CAPACITY"
proof -
  have f: "feasible boarding_run" by code_simp
  have "cars_on_board (state_after boarding_run) = 5" by code_simp
  with f capacity_invariant [OF f] show ?thesis by simp
qed

text \<open>
  C3. Whenever the ferry is past its \<open>sem_wait(sem_full)\<close> and has not yet opened
  unboarding (the check of line 86, the departure message, the crossing pause, the
  arrival message), the counter equals the capacity.
\<close>

theorem no_premature_departure:
  "feasible acts \<Longrightarrow>
   ferry_pc (state_after acts) \<in> {F_check_depart, F_print_leave, F_sleep_cross, F_print_arrive} \<Longrightarrow>
   cars_on_board (state_after acts) = int FERRY_CAPACITY"
proof -
  assume f: "feasible acts"
    and pc: "ferry_pc (state_after acts) \<in> {F_check_depart, F_print_leave, F_sleep_cross, F_print_arrive}"
  have "proto FERRY_CAPACITY 0 True (state_after acts) (history acts)"
    using feasible_gate_inv [OF f] pc by (auto simp: gate_inv_def)
  then have "balanced FERRY_CAPACITY FERRY_CAPACITY 0 True
      (census_of (state_after acts) (history acts))"
    by (simp add: proto_def)
  from balanced_crossing [OF this] show ?thesis
    by (simp add: census_of_def)
qed

theorem no_premature_departure_witness:
  "feasible late_run \<and> ferry_pc (state_after late_run) = F_sleep_cross
   \<and> cars_on_board (state_after late_run) = int FERRY_CAPACITY"
proof -
  have f: "feasible late_run" by code_simp
  have pc: "ferry_pc (state_after late_run) = F_sleep_cross" by code_simp
  from no_premature_departure [OF f] pc f show ?thesis by simp
qed


section \<open>Properties of whole executions\<close>

lemma runs_every_cycle:
  assumes run: "runs acts s tr"
    and fin: "\<And>s tr s'. gate_inv s tr \<Longrightarrow> ferry_pc s = F_wait_empty \<Longrightarrow>
               ferry_step s = Some s' \<Longrightarrow> P (current_cycle tr)"
  shows "every_cycle P tr"
proof -
  let ?I = "\<lambda>s tr. gate_inv s tr \<and> every_cycle P tr"
  have "?I s tr"
  proof (rule exec_invariant [where I = ?I, OF run [unfolded runs_def]])
    show "?I init []" by (simp add: gate_inv_init)
  next
    fix a s tr s'
    assume I: "?I s tr" and st: "step a s = Some s'"
    have "every_cycle P (observe a s @ tr)"
    proof (cases a)
      case (Tick d)
      then show ?thesis using I by simp
    next
      case Run_ferry
      then show ?thesis using I st fin [of s tr s'] by auto
    next
      case (Run_car i)
      then show ?thesis using I by simp
    qed
    then show "?I s' (observe a s @ tr)" using I st gate_inv_step by blast
  qed
  then show ?thesis by simp
qed

lemma runs_every_event:
  assumes run: "runs acts s tr"
    and init: "I init []"
    and pres: "\<And>a s tr s'. I s tr \<Longrightarrow> step a s = Some s' \<Longrightarrow> I s' (observe a s @ tr)"
    and ev: "\<And>a s tr s' e. I s tr \<Longrightarrow> step a s = Some s' \<Longrightarrow> observe a s = [e] \<Longrightarrow>
               Q (snd e) tr"
  shows "every_event Q tr"
proof -
  let ?I = "\<lambda>s tr. I s tr \<and> every_event Q tr"
  have "?I s tr"
  proof (rule exec_invariant [where I = ?I, OF run [unfolded runs_def]])
    show "?I init []" by (simp add: init)
  next
    fix a s tr s'
    assume I: "?I s tr" and st: "step a s = Some s'"
    have "every_event Q (observe a s @ tr)"
    proof (cases a)
      case (Tick d)
      then show ?thesis using I by simp
    next
      case Run_ferry
      then show ?thesis using I ev [OF _ st, of tr] by simp
    next
      case (Run_car i)
      then show ?thesis using I ev [OF _ st, of tr] by simp
    qed
    then show "?I s' (observe a s @ tr)" using I st pres by blast
  qed
  then show ?thesis by simp
qed

lemma balanced_cycle_end:
  "balanced N N N True t \<Longrightarrow> 0 < v_empty t \<Longrightarrow>
   h_incr t = N \<and> h_decr t = N \<and> h_post_full t = 1 \<and> h_post_empty t = 1"
  unfolding balanced_def by (auto split: if_splits)

lemma cycle_end:
  assumes "gate_inv s tr" and "ferry_pc s = F_wait_empty" and "ferry_step s = Some s'"
  shows "round_trip (current_cycle tr) \<and> signals_once (current_cycle tr)"
proof -
  have bal: "balanced FERRY_CAPACITY FERRY_CAPACITY FERRY_CAPACITY True (census_of s tr)"
    using assms(1,2) by (simp add: gate_inv_def proto_def)
  have "0 < v_empty (census_of s tr)"
    using assms(2,3) by (simp add: ferry_step_def census_of_def split: if_splits)
  from balanced_cycle_end [OF bal this] show ?thesis
    by (simp add: census_of_def round_trip_def signals_once_def)
qed

text \<open>
  C5. In every cycle of the ferry that ends (the \<open>sem_wait(sem_empty)\<close> of line 101
  returns), the cars have executed exactly \<open>FERRY_CAPACITY\<close> increments and exactly
  \<open>FERRY_CAPACITY\<close> decrements of the counter since the end of the previous cycle.
\<close>

theorem round_trip_conservation:
  "feasible acts \<Longrightarrow> every_cycle round_trip (history acts)"
  using runs_every_cycle [OF feasible_runs, of acts round_trip] cycle_end by blast

theorem round_trip_conservation_witness:
  "feasible cycle_run \<and> snd (hd (history cycle_run)) = L_ferry F_wait_empty
   \<and> every_cycle round_trip (history cycle_run)"
proof -
  have f: "feasible cycle_run" by code_simp
  have "snd (hd (history cycle_run)) = L_ferry F_wait_empty" by code_simp
  with f round_trip_conservation [OF f] show ?thesis by simp
qed


section \<open>Ownership of the mutex\<close>

lemma car_step_pcs:
  "car_step j s = Some s' \<Longrightarrow> \<exists>q. car_pcs s' = (car_pcs s)[j := q]"
  by (auto simp: car_step_def goto_def split: cpc.splits if_splits)

lemma car_step_ferry_pc: "car_step j s = Some s' \<Longrightarrow> ferry_pc s' = ferry_pc s"
  by (auto simp: car_step_def split: cpc.splits if_splits)

lemma ferry_step_cars:
  "ferry_step s = Some s' \<Longrightarrow>
   car_pcs s' = car_pcs s \<and> car_count_mutex s' = car_count_mutex s
   \<and> cars_on_board s' = cars_on_board s"
  by (auto simp: ferry_step_def split: fpc.splits if_splits)

lemma owner_inv_car_step:
  assumes inv: "owner_inv s" and st: "car_step j s = Some s'" and j: "j < length (car_pcs s)"
  shows "owner_inv s'"
proof -
  have key: "in_region (car_pcs s ! j) = (car_count_mutex s = Some j)"
    using inv j by (simp add: owner_inv_def)
  show ?thesis
  proof (cases "car_pcs s ! j")
    case C_lock_board
    then show ?thesis using inv st j key
      by (auto simp: owner_inv_def car_step_def goto_def nth_list_update split: if_splits)
  next
    case C_lock_unboard
    then show ?thesis using inv st j key
      by (auto simp: owner_inv_def car_step_def goto_def nth_list_update split: if_splits)
  next
    case C_unlock_board
    then show ?thesis using inv st j key
      by (auto simp: owner_inv_def car_step_def goto_def nth_list_update split: if_splits)
  next
    case C_unlock_unboard
    then show ?thesis using inv st j key
      by (auto simp: owner_inv_def car_step_def goto_def nth_list_update split: if_splits)
  qed (use inv st j key in \<open>auto simp: owner_inv_def car_step_def goto_def emit_def
        nth_list_update split: if_splits option.splits\<close>)
qed

lemma owner_inv_step:
  assumes "owner_inv s" and "step a s = Some s'"
  shows "owner_inv s'"
proof (cases a)
  case (Tick d)
  then show ?thesis using assms by (auto simp: owner_inv_def split: if_splits)
next
  case Run_ferry
  then show ?thesis using assms ferry_step_cars [of s s'] by (simp add: owner_inv_def)
next
  case (Run_car i)
  then show ?thesis using assms owner_inv_car_step by (simp split: if_splits)
qed

lemma owner_inv_init: "owner_inv init"
  by (simp add: owner_inv_def init_def)

lemma runs_owner_inv: "runs acts s tr \<Longrightarrow> owner_inv s"
  unfolding runs_def
  by (erule exec_invariant [where I = "\<lambda>s tr. owner_inv s"])
     (auto intro: owner_inv_init owner_inv_step)


section \<open>What a car has just done\<close>

lemma trail_skip_ferry [simp]:
  "trail b i ps ((t, L_ferry q) # tr) = trail b i ps tr"
  by (cases ps) simp_all

lemma trail_other_car:
  "j \<noteq> i \<Longrightarrow> (b \<Longrightarrow> q \<noteq> C_incr \<and> q \<noteq> C_decr) \<Longrightarrow>
   trail b i ps ((t, L_car j q) # tr) = trail b i ps tr"
  by (cases ps) auto

lemma trail_prefix: "trail b i (ps @ qs) tr \<Longrightarrow> trail b i ps tr"
proof (induction b i ps tr rule: trail.induct)
  case (1 strict i tr)
  then show ?case by simp
next
  case (2 strict i p ps)
  then show ?case by simp
next
  case (3 strict i p ps t q tr)
  then show ?case by simp
next
  case (4 strict i p ps t j q tr)
  then show ?case by (auto split: if_splits)
qed

lemma recent_chain:
  assumes "car_step j s = Some s'" and "j < length (car_pcs s)"
  shows "recent (car_pcs s' ! j) = []
       \<or> recent (car_pcs s' ! j) = car_pcs s ! j # recent (car_pcs s ! j)"
  using assms
  by (cases "car_pcs s ! j") (auto simp: car_step_def goto_def split: if_splits)

lemma prior_chain:
  assumes "car_step j s = Some s'" and "j < length (car_pcs s)"
  shows "prior (car_pcs s' ! j) = []
       \<or> prior (car_pcs s' ! j) = car_pcs s ! j # prior (car_pcs s ! j)"
  using assms
  by (cases "car_pcs s ! j") (auto simp: car_step_def goto_def split: if_splits)

lemma recent_in_region: "recent p \<noteq> [] \<Longrightarrow> in_region p"
  by (cases p) simp_all

lemma trail_inv_car_step:
  assumes inv: "trail_inv b f s tr" and st: "car_step j s = Some s'"
    and j: "j < length (car_pcs s)"
    and chain: "f (car_pcs s' ! j) = [] \<or> f (car_pcs s' ! j) = car_pcs s ! j # f (car_pcs s ! j)"
    and quiet: "\<And>i. b \<Longrightarrow> i < length (car_pcs s) \<Longrightarrow> i \<noteq> j \<Longrightarrow> f (car_pcs s ! i) \<noteq> [] \<Longrightarrow>
                 car_pcs s ! j \<noteq> C_incr \<and> car_pcs s ! j \<noteq> C_decr"
  shows "trail_inv b f s' ((t, L_car j (car_pcs s ! j)) # tr)"
  unfolding trail_inv_def
proof (intro allI impI)
  fix i
  assume i': "i < length (car_pcs s')"
  obtain q where pcs: "car_pcs s' = (car_pcs s)[j := q]"
    using car_step_pcs [OF st] by blast
  then have i: "i < length (car_pcs s)" using i' by simp
  have old: "trail b i (f (car_pcs s ! i)) tr"
    using inv i by (simp add: trail_inv_def)
  show "trail b i (f (car_pcs s' ! i)) ((t, L_car j (car_pcs s ! j)) # tr)"
  proof (cases "i = j")
    case True
    then show ?thesis using chain old by auto
  next
    case False
    then have same: "car_pcs s' ! i = car_pcs s ! i" using pcs by simp
    show ?thesis
    proof (cases "f (car_pcs s ! i) = []")
      case True
      then show ?thesis using same by simp
    next
      case nonempty: False
      have "trail b i (f (car_pcs s ! i)) ((t, L_car j (car_pcs s ! j)) # tr)
            = trail b i (f (car_pcs s ! i)) tr"
        using False quiet [OF _ i False nonempty] by (intro trail_other_car) auto
      then show ?thesis using same old by simp
    qed
  qed
qed

lemma trail_inv_other:
  assumes "trail_inv b f s tr" and "car_pcs s' = car_pcs s"
  shows "trail_inv b f s' tr" and "trail_inv b f s' ((t, L_ferry q) # tr)"
  using assms by (simp_all add: trail_inv_def)

lemma car_hist_init: "car_hist init []"
  using owner_inv_init by (simp add: car_hist_def trail_inv_def init_def)

lemma car_hist_step:
  assumes inv: "car_hist s tr" and st: "step a s = Some s'"
  shows "car_hist s' (observe a s @ tr)"
proof (cases a)
  case (Tick d)
  then have "car_pcs s' = car_pcs s" using st by (auto split: if_splits)
  then show ?thesis
    using inv owner_inv_step [OF _ st] Tick trail_inv_other(1) by (auto simp: car_hist_def)
next
  case Run_ferry
  then have "car_pcs s' = car_pcs s" using st ferry_step_cars by simp
  then show ?thesis
    using inv owner_inv_step [OF _ st] Run_ferry trail_inv_other(2) by (auto simp: car_hist_def)
next
  case (Run_car j)
  then have j: "j < length (car_pcs s)" and cs: "car_step j s = Some s'"
    using st by (simp_all split: if_splits)
  have own: "owner_inv s" using inv by (simp add: car_hist_def)
  have quiet: "car_pcs s ! j \<noteq> C_incr \<and> car_pcs s ! j \<noteq> C_decr"
    if "i < length (car_pcs s)" "i \<noteq> j" "recent (car_pcs s ! i) \<noteq> []" for i
  proof -
    have "car_count_mutex s = Some i"
      using own that(1) recent_in_region [OF that(3)] by (simp add: owner_inv_def)
    then have "\<not> in_region (car_pcs s ! j)"
      using own j that(2) by (simp add: owner_inv_def)
    then show ?thesis by auto
  qed
  have "trail_inv True recent s' ((t, L_car j (car_pcs s ! j)) # tr)" for t
    using inv quiet by (intro trail_inv_car_step [OF _ cs j recent_chain [OF cs j]])
      (auto simp: car_hist_def)
  moreover have "trail_inv False prior s' ((t, L_car j (car_pcs s ! j)) # tr)" for t
    using inv by (intro trail_inv_car_step [OF _ cs j prior_chain [OF cs j]])
      (auto simp: car_hist_def)
  ultimately show ?thesis
    using Run_car owner_inv_step [OF own st] by (simp add: car_hist_def)
qed

lemma runs_car_hist: "runs acts s tr \<Longrightarrow> car_hist s tr"
  unfolding runs_def
  by (erule exec_invariant [where I = car_hist]) (auto intro: car_hist_init car_hist_step)


lemma feasible_length: "feasible acts \<Longrightarrow> length (car_pcs (state_after acts)) = FERRY_CAPACITY"
  using feasible_gate_inv [of acts] by (auto simp: gate_inv_def proto_def)

lemma feasible_balanced:
  assumes "feasible acts"
  obtains kb ku fc where
    "balanced FERRY_CAPACITY kb ku fc (census_of (state_after acts) (history acts))"
  using feasible_gate_inv [OF assms] by (auto simp: gate_inv_def proto_def)

lemma balanced_posts_le:
  "balanced N kb ku fc t \<Longrightarrow> h_post_full t \<le> 1 \<and> h_post_empty t \<le> 1"
  unfolding balanced_def by (auto split: if_splits)

lemma balanced_post_full: "balanced N kb ku fc t \<Longrightarrow> 0 < q_post_full t \<Longrightarrow> v_count t = int N"
  unfolding balanced_def by (auto split: if_splits)

lemma balanced_post_empty: "balanced N kb ku fc t \<Longrightarrow> 0 < q_post_empty t \<Longrightarrow> v_count t = 0"
  unfolding balanced_def by (auto split: if_splits)

lemma car_hist_signal:
  assumes inv: "car_hist s tr" and st: "step a s = Some s'" and ob: "observe a s = [e]"
  shows "signal_by_last (snd e) tr"
proof (cases a)
  case (Tick d)
  then show ?thesis using ob by simp
next
  case Run_ferry
  then show ?thesis using ob by auto
next
  case (Run_car i)
  then have i: "i < length (car_pcs s)" using st by (simp split: if_splits)
  have tr: "trail True i (recent (car_pcs s ! i)) tr"
    using inv i by (simp add: car_hist_def trail_inv_def)
  have "trail True i [C_test_full, C_print_entered, C_incr] tr" if "car_pcs s ! i = C_post_full"
    using tr that trail_prefix [of True i "[C_test_full, C_print_entered, C_incr]"
      "[C_usleep_board, C_lock_board]" tr] by simp
  moreover have "trail True i [C_test_empty, C_decr] tr" if "car_pcs s ! i = C_post_empty"
    using tr that trail_prefix [of True i "[C_test_empty, C_decr]" "[C_lock_unboard]" tr]
    by simp
  ultimately show ?thesis using Run_car ob by auto
qed

text \<open>
  C2. In every cycle of the ferry that ends, \<open>sem_full\<close> has been posted exactly once
  and \<open>sem_empty\<close> exactly once; in a cycle that has not ended, each at most once. The
  car that posts \<open>sem_full\<close> has just run its own increment, log call and test with no
  other update of the counter in between, and the counter equals the capacity while it
  is about to post; likewise for \<open>sem_empty\<close>, the decrement and the value 0.
\<close>

theorem single_trigger:
  "feasible acts \<Longrightarrow>
   every_cycle signals_once (history acts)
   \<and> occ (by_car C_post_full) (current_cycle (history acts)) \<le> 1
   \<and> occ (by_car C_post_empty) (current_cycle (history acts)) \<le> 1
   \<and> every_event signal_by_last (history acts)
   \<and> (\<forall>i < FERRY_CAPACITY.
        (car_pcs (state_after acts) ! i = C_post_full \<longrightarrow>
           cars_on_board (state_after acts) = int FERRY_CAPACITY)
      \<and> (car_pcs (state_after acts) ! i = C_post_empty \<longrightarrow>
           cars_on_board (state_after acts) = 0))"
proof -
  assume f: "feasible acts"
  let ?s = "state_after acts" and ?tr = "history acts"
  have run: "runs acts ?s ?tr" using f by (rule feasible_runs)
  have len: "length (car_pcs ?s) = FERRY_CAPACITY" using f by (rule feasible_length)
  obtain kb ku fc where bal: "balanced FERRY_CAPACITY kb ku fc (census_of ?s ?tr)"
    using f by (rule feasible_balanced)
  have 1: "every_cycle signals_once ?tr"
    using runs_every_cycle [OF run, of signals_once] cycle_end by blast
  have 2: "occ (by_car C_post_full) (current_cycle ?tr) \<le> 1
         \<and> occ (by_car C_post_empty) (current_cycle ?tr) \<le> 1"
    using balanced_posts_le [OF bal] by (simp add: census_of_def)
  have 3: "every_event signal_by_last ?tr"
    by (rule runs_every_event [OF run, where I = car_hist])
       (auto intro: car_hist_init car_hist_step car_hist_signal)
  have 4: "cars_on_board ?s = int FERRY_CAPACITY"
    if "i < FERRY_CAPACITY" "car_pcs ?s ! i = C_post_full" for i
  proof -
    have "0 < q_post_full (census_of ?s ?tr)"
      using num_pos [of i ?s "{C_post_full}"] that len by (simp add: census_of_def)
    from balanced_post_full [OF bal this] show ?thesis by (simp add: census_of_def)
  qed
  have 5: "cars_on_board ?s = 0"
    if "i < FERRY_CAPACITY" "car_pcs ?s ! i = C_post_empty" for i
  proof -
    have "0 < q_post_empty (census_of ?s ?tr)"
      using num_pos [of i ?s "{C_post_empty}"] that len by (simp add: census_of_def)
    from balanced_post_empty [OF bal this] show ?thesis by (simp add: census_of_def)
  qed
  show ?thesis using 1 2 3 4 5 by blast
qed

theorem single_trigger_witness:
  "feasible cycle_run
   \<and> snd (hd (history cycle_run)) = L_ferry F_wait_empty
   \<and> every_cycle signals_once (history cycle_run)
   \<and> every_event signal_by_last (history cycle_run)"
proof -
  have f: "feasible cycle_run" by code_simp
  have "snd (hd (history cycle_run)) = L_ferry F_wait_empty" by code_simp
  with f single_trigger [OF f] show ?thesis by simp
qed


lemma feasible_owner: "feasible acts \<Longrightarrow> owner_inv (state_after acts)"
  by (rule runs_owner_inv [OF feasible_runs])

text \<open>
  C4, as stated, fails: after the ferry has posted a permit, car 0 takes it, locks the
  mutex and is in the pause of line 127 while it holds the mutex.
\<close>

theorem mutex_held_in_pause_counterexample:
  "feasible pause_run
   \<and> car_pcs (state_after pause_run) ! 0 = C_usleep_board
   \<and> car_count_mutex (state_after pause_run) = Some 0"
  by code_simp

text \<open>
  C4, amended. Only cars own the mutex, and car \<open>i\<close> owns it exactly while it is at one
  of the statements of lines 127--136 (the boarding pause, the increment, the log call,
  the test against the capacity, the post, the unlock) or of lines 148--154 (the
  decrement, the test against 0, the post, the unlock). So no car holds the mutex while
  it waits for a semaphore (lines 120, 140) or for the mutex (lines 123, 147), nor in
  the pauses of lines 143 and 159; the pause of line 127 is inside the region.
\<close>

theorem mutex_region:
  "feasible acts \<Longrightarrow>
   (\<forall>i. car_count_mutex (state_after acts) = Some i \<longrightarrow> i < FERRY_CAPACITY)
   \<and> (\<forall>i < FERRY_CAPACITY.
        (car_count_mutex (state_after acts) = Some i) = in_region (car_pcs (state_after acts) ! i)
      \<and> (car_pcs (state_after acts) ! i
            \<in> {C_wait_board, C_lock_board, C_wait_unboard, C_usleep_unboard, C_print_left,
                C_lock_unboard, C_usleep_away} \<longrightarrow>
          car_count_mutex (state_after acts) \<noteq> Some i))"
proof -
  assume f: "feasible acts"
  have own: "owner_inv (state_after acts)" using f by (rule feasible_owner)
  have len: "length (car_pcs (state_after acts)) = FERRY_CAPACITY"
    using f by (rule feasible_length)
  have eq: "(car_count_mutex (state_after acts) = Some i)
            = in_region (car_pcs (state_after acts) ! i)" if "i < FERRY_CAPACITY" for i
    using own len that by (simp add: owner_inv_def)
  have "car_count_mutex (state_after acts) \<noteq> Some i"
    if "i < FERRY_CAPACITY"
      "car_pcs (state_after acts) ! i
         \<in> {C_wait_board, C_lock_board, C_wait_unboard, C_usleep_unboard, C_print_left,
             C_lock_unboard, C_usleep_away}" for i
    using eq [OF that(1)] that(2) by auto
  then show ?thesis using own len eq by (auto simp: owner_inv_def)
qed

theorem mutex_region_witness:
  "feasible pause_run \<and> (0::nat) < FERRY_CAPACITY
   \<and> (car_count_mutex (state_after pause_run) = Some 0)
       = in_region (car_pcs (state_after pause_run) ! 0)
   \<and> car_count_mutex (state_after pause_run) = Some 0"
proof -
  have f: "feasible pause_run" by code_simp
  have "car_count_mutex (state_after pause_run) = Some 0" by code_simp
  with f mutex_region [OF f] FERRY_CAPACITY_pos show ?thesis by blast
qed

lemma car_hist_left:
  assumes inv: "car_hist s tr" and st: "step a s = Some s'" and ob: "observe a s = [e]"
  shows "left_then_decr (snd e) tr"
proof (cases a)
  case (Tick d)
  then show ?thesis using ob by simp
next
  case Run_ferry
  then show ?thesis using ob by auto
next
  case (Run_car i)
  then have i: "i < length (car_pcs s)" using st by (simp split: if_splits)
  have tr: "trail True i (recent (car_pcs s ! i)) tr"
    and pr: "trail False i (prior (car_pcs s ! i)) tr"
    using inv i by (simp_all add: car_hist_def trail_inv_def)
  show ?thesis using Run_car ob tr pr by auto
qed

text \<open>
  C7. A car locks the mutex for its decrement only directly after it has, in this
  order, received the unboarding permit, paused, and made its \<open>left the ferry\<close> log
  call; during these three statements it does not own the mutex. Its decrement, its test
  against 0 and its post of \<open>sem_empty\<close> follow its lock with no update of the counter
  by another car in between, and it owns the mutex from the decrement to the unlock.
\<close>

theorem left_before_decrement:
  "feasible acts \<Longrightarrow>
   every_event left_then_decr (history acts)
   \<and> (\<forall>i < FERRY_CAPACITY.
        (car_pcs (state_after acts) ! i \<in> {C_usleep_unboard, C_print_left, C_lock_unboard} \<longrightarrow>
           car_count_mutex (state_after acts) \<noteq> Some i)
      \<and> (car_pcs (state_after acts) ! i
            \<in> {C_decr, C_test_empty, C_post_empty, C_unlock_unboard} \<longrightarrow>
           car_count_mutex (state_after acts) = Some i))"
proof -
  assume f: "feasible acts"
  let ?s = "state_after acts" and ?tr = "history acts"
  have run: "runs acts ?s ?tr" using f by (rule feasible_runs)
  have own: "owner_inv ?s" using f by (rule feasible_owner)
  have len: "length (car_pcs ?s) = FERRY_CAPACITY" using f by (rule feasible_length)
  have 1: "every_event left_then_decr ?tr"
    by (rule runs_every_event [OF run, where I = car_hist])
       (auto intro: car_hist_init car_hist_step car_hist_left)
  have eq: "(car_count_mutex ?s = Some i) = in_region (car_pcs ?s ! i)"
    if "i < FERRY_CAPACITY" for i
    using own len that by (simp add: owner_inv_def)
  have 2: "car_count_mutex ?s \<noteq> Some i"
    if "i < FERRY_CAPACITY" "car_pcs ?s ! i \<in> {C_usleep_unboard, C_print_left, C_lock_unboard}"
    for i
    using eq [OF that(1)] that(2) by auto
  have 3: "car_count_mutex ?s = Some i"
    if "i < FERRY_CAPACITY"
      "car_pcs ?s ! i \<in> {C_decr, C_test_empty, C_post_empty, C_unlock_unboard}" for i
    using eq [OF that(1)] that(2) by auto
  show ?thesis using 1 2 3 by blast
qed

theorem left_before_decrement_witness:
  "feasible cycle_run
   \<and> L_car 0 C_lock_unboard \<in> snd ` set (history cycle_run)
   \<and> L_car 0 C_test_empty \<in> snd ` set (history cycle_run)
   \<and> every_event left_then_decr (history cycle_run)"
proof -
  have f: "feasible cycle_run" by code_simp
  have "L_car 0 C_lock_unboard \<in> snd ` set (history cycle_run)" by code_simp
  moreover have "L_car 0 C_test_empty \<in> snd ` set (history cycle_run)" by code_simp
  ultimately show ?thesis using f left_before_decrement [OF f] by simp
qed

section \<open>Semaphores and the ferry's checks\<close>

lemma sem_hist_car_step:
  assumes "sem_hist s tr" and "car_step j s = Some s'"
  shows "sem_hist s' ((t, L_car j (car_pcs s ! j)) # tr)"
  using assms
  by (cases "car_pcs s ! j") (auto simp: sem_hist_def car_step_def split: if_splits)

lemma sem_hist_ferry_step:
  assumes "sem_hist s tr" and "ferry_step s = Some s'"
  shows "sem_hist s' ((t, L_ferry (ferry_pc s)) # tr)"
  using assms
  by (cases "ferry_pc s") (auto simp: sem_hist_def ferry_step_def split: if_splits)

lemma sem_hist_step:
  assumes "sem_hist s tr" and "step a s = Some s'"
  shows "sem_hist s' (observe a s @ tr)"
proof (cases a)
  case (Tick d)
  then show ?thesis using assms by (auto simp: sem_hist_def split: if_splits)
next
  case Run_ferry
  then show ?thesis using assms sem_hist_ferry_step by simp
next
  case (Run_car i)
  then show ?thesis using assms sem_hist_car_step by (simp split: if_splits)
qed

lemma sem_hist_init: "sem_hist init []"
  by (simp add: sem_hist_def init_def)

lemma sem_hist_permit:
  assumes inv: "sem_hist s tr" and st: "step a s = Some s'" and ob: "observe a s = [e]"
  shows "permit_first (snd e) tr"
proof (cases a)
  case (Tick d)
  then show ?thesis using ob by simp
next
  case Run_ferry
  then show ?thesis using inv st ob
    by (auto simp: sem_hist_def ferry_step_def split: if_splits)
next
  case (Run_car i)
  then show ?thesis using inv st ob
    by (auto simp: sem_hist_def car_step_def split: if_splits)
qed

text \<open>
  C9. The four semaphores start at 0. In every execution, each return of a car's
  \<open>sem_wait(sem_board)\<close> comes after more posts of \<open>sem_board\<close> by the ferry than there
  were such returns before it, and each return of the ferry's \<open>sem_wait(sem_full)\<close>
  after more posts of \<open>sem_full\<close> by cars than there were such returns before it. So
  no car boards before the ferry's first post, and the ferry does not pass line 83
  before a car has posted \<open>sem_full\<close>.
\<close>

theorem permits_before_use:
  "sem_board init = 0 \<and> sem_full init = 0 \<and> sem_unboard init = 0 \<and> sem_empty init = 0
   \<and> (feasible acts \<longrightarrow> every_event permit_first (history acts))"
proof -
  have "every_event permit_first (history acts)" if f: "feasible acts"
    by (rule runs_every_event [OF feasible_runs [OF f], where I = sem_hist])
       (auto intro: sem_hist_init sem_hist_step sem_hist_permit)
  then show ?thesis by (simp add: init_def)
qed

theorem permits_before_use_witness:
  "feasible boarding_run
   \<and> L_car 0 C_wait_board \<in> snd ` set (history boarding_run)
   \<and> every_event permit_first (history boarding_run)"
proof -
  have f: "feasible boarding_run" by code_simp
  have "L_car 0 C_wait_board \<in> snd ` set (history boarding_run)" by code_simp
  with f permits_before_use [of boarding_run] show ?thesis by simp
qed

lemma ferry_hist_step:
  assumes "ferry_hist s tr" and "step a s = Some s'"
  shows "ferry_hist s' (observe a s @ tr)"
proof (cases a)
  case (Tick d)
  then show ?thesis using assms by (auto simp: ferry_hist_def split: if_splits)
next
  case Run_ferry
  then have st: "ferry_step s = Some s'" using assms by simp
  show ?thesis
    using assms(1) st Run_ferry
    by (cases "ferry_pc s") (auto simp: ferry_hist_def ferry_step_def split: if_splits)
next
  case (Run_car i)
  then have "car_step i s = Some s'" using assms by (simp split: if_splits)
  from car_step_ferry_pc [OF this] show ?thesis
    using assms(1) Run_car by (simp add: ferry_hist_def)
qed

lemma ferry_hist_init: "ferry_hist init []"
  by (simp add: ferry_hist_def init_def)

lemma ferry_hist_checked:
  assumes inv: "ferry_hist s tr" and st: "step a s = Some s'" and ob: "observe a s = [e]"
  shows "checked_first (snd e) tr"
proof (cases a)
  case (Tick d)
  then show ?thesis using ob by simp
next
  case Run_ferry
  then show ?thesis using inv st ob by (auto simp: ferry_hist_def)
next
  case (Run_car i)
  then show ?thesis using ob by auto
qed

text \<open>
  C8, as stated, fails: the ferry is full at 59.999999 s and passes the check of line
  86; its next statement, the departure log call of line 90, runs at 60.000001 s, after
  the run duration (so \<open>print_status\<close> prints nothing), and the ferry goes on to the
  crossing pause of line 91.
\<close>

theorem departure_after_runtime_counterexample:
  "feasible late_run
   \<and> snd (hd (history late_run)) = L_ferry F_print_leave
   \<and> real PROGRAM_RUNTIME < fst (hd (history late_run))
   \<and> ferry_pc (state_after late_run) = F_sleep_cross"
  by code_simp

text \<open>
  C8, amended. The ferry tests the clock at the top of every cycle and again directly
  after \<open>sem_wait(sem_full)\<close> has returned: the first permit of a boarding phase
  directly follows a test of line 74, and the departure log call directly follows a
  test of line 86 that directly follows the return of line 83; both tests read an
  elapsed time below the run duration. A test that reads an elapsed time of at least
  the run duration makes the ferry leave its loop. (Time may pass the run duration
  between the test and the departure.)
\<close>

theorem departure_checked:
  "(feasible acts \<longrightarrow> every_event checked_first (history acts))
   \<and> (ferry_pc s \<in> {F_check_time, F_check_depart}
        \<and> real PROGRAM_RUNTIME \<le> get_relative_time_sec s \<longrightarrow>
      map_option ferry_pc (ferry_step s) = Some F_exit)"
proof -
  have "every_event checked_first (history acts)" if f: "feasible acts"
    by (rule runs_every_event [OF feasible_runs [OF f], where I = ferry_hist])
       (auto intro: ferry_hist_init ferry_hist_step ferry_hist_checked)
  then show ?thesis by (auto simp: ferry_step_def)
qed

theorem departure_checked_witness:
  "feasible late_run
   \<and> snd (hd (history late_run)) = L_ferry F_print_leave
   \<and> every_event checked_first (history late_run)
   \<and> ferry_pc (state_after timeout_run) = F_check_depart
   \<and> real PROGRAM_RUNTIME \<le> get_relative_time_sec (state_after timeout_run)
   \<and> map_option ferry_pc (ferry_step (state_after timeout_run)) = Some F_exit"
proof -
  have f: "feasible late_run" by code_simp
  have e: "snd (hd (history late_run)) = L_ferry F_print_leave" by code_simp
  have pc: "ferry_pc (state_after timeout_run) = F_check_depart" by code_simp
  have t: "real PROGRAM_RUNTIME \<le> get_relative_time_sec (state_after timeout_run)"
    by code_simp
  show ?thesis
    using f e pc t departure_checked [of late_run "state_after timeout_run"] by simp
qed

section \<open>The log\<close>

lemma print_status_time:
  "print_status t m n = Some l \<Longrightarrow> n \<noteq> - 99 \<Longrightarrow> line_time l \<le> real PROGRAM_RUNTIME"
  by (auto simp: print_status_def split: if_splits)

lemma log_in_time_emit:
  "log_in_time s \<Longrightarrow> n \<noteq> - 99 \<Longrightarrow> log_in_time (emit m n s)"
  by (auto simp: log_in_time_def emit_def split: option.splits dest: print_status_time)

lemma log_in_time_stdout: "stdout s' = stdout s \<Longrightarrow> log_in_time s \<Longrightarrow> log_in_time s'"
  by (simp add: log_in_time_def)

lemma log_in_time_step:
  assumes inv: "log_in_time s" and st: "step a s = Some s'"
  shows "log_in_time s'"
proof (cases a)
  case (Tick d)
  then show ?thesis using inv st by (auto simp: log_in_time_def split: if_splits)
next
  case Run_ferry
  then have fs: "ferry_step s = Some s'" using st by simp
  have e: "log_in_time (emit m (- 1) s)" for m
    using inv by (rule log_in_time_emit) simp
  show ?thesis
  proof (cases "ferry_pc s")
    case F_arrive_first
    then show ?thesis using fs e [of "''arrives to new dock''"]
      by (auto simp: ferry_step_def log_in_time_def)
  next
    case F_print_leave
    then show ?thesis using fs e [of "''leaves the dock''"]
      by (auto simp: ferry_step_def log_in_time_def)
  next
    case F_print_arrive
    then show ?thesis using fs e [of "''arrives to new dock''"]
      by (auto simp: ferry_step_def log_in_time_def)
  qed (use inv fs in \<open>auto simp: ferry_step_def log_in_time_def split: if_splits\<close>)
next
  case (Run_car i)
  then have cs: "car_step i s = Some s'" using st by (simp split: if_splits)
  have e: "log_in_time (emit m (int i + 1) s)" for m
    using inv by (rule log_in_time_emit) simp
  show ?thesis
  proof (cases "car_pcs s ! i")
    case C_print_entered
    then show ?thesis using cs e [of "''entered the ferry''"]
      by (auto simp: car_step_def goto_def log_in_time_def)
  next
    case C_print_left
    then show ?thesis using cs e [of "''left the ferry''"]
      by (auto simp: car_step_def goto_def log_in_time_def)
  qed (use inv cs in \<open>auto simp: car_step_def goto_def log_in_time_def split: if_splits\<close>)
qed

lemma log_in_time_init: "log_in_time init"
  by (simp add: log_in_time_def init_def)

lemma runs_log_in_time: "runs acts s tr \<Longrightarrow> log_in_time s"
  unfolding runs_def
  by (erule exec_invariant [where I = "\<lambda>s tr. log_in_time s"])
     (auto intro: log_in_time_step log_in_time_init)

text \<open>
  C10. A call of \<open>print_status\<close> that reads an elapsed time above the run duration, with
  a number other than -99, prints nothing. Any other call prints a ferry line when the
  number is -1 or -99 and a car line carrying the number otherwise. A line printed for
  a number other than -99 has a time stamp of at most the run duration, and so has every
  line the ferry and the cars have printed in any execution.
\<close>

theorem print_status_filter:
  "(real PROGRAM_RUNTIME < t \<and> n \<noteq> - 99 \<longrightarrow> print_status t m n = None)
   \<and> (\<not> (real PROGRAM_RUNTIME < t \<and> n \<noteq> - 99) \<longrightarrow>
        (n = - 1 \<or> n = - 99 \<longrightarrow> print_status t m n = Some (Ferry_line t m))
      \<and> (n \<noteq> - 1 \<and> n \<noteq> - 99 \<longrightarrow> print_status t m n = Some (Car_line t n m)))
   \<and> (print_status t m n = Some l \<and> n \<noteq> - 99 \<longrightarrow> line_time l \<le> real PROGRAM_RUNTIME)
   \<and> (feasible acts \<longrightarrow>
        (\<forall>l \<in> set (stdout (state_after acts)). line_time l \<le> real PROGRAM_RUNTIME))"
proof -
  have "\<forall>l \<in> set (stdout (state_after acts)). line_time l \<le> real PROGRAM_RUNTIME"
    if "feasible acts"
    using runs_log_in_time [OF feasible_runs [OF that]] by (simp add: log_in_time_def)
  then show ?thesis
    using print_status_time [of t m n l] by (auto simp: print_status_def)
qed

theorem print_status_filter_witness:
  "print_status 61 ''left the ferry'' 3 = None
   \<and> print_status 61 ''arrives to new dock'' (- 1) = None
   \<and> print_status 61 ''stop'' (- 99) = Some (Ferry_line 61 ''stop'')
   \<and> print_status 12 ''leaves the dock'' (- 1) = Some (Ferry_line 12 ''leaves the dock'')
   \<and> print_status 12 ''left the ferry'' 3 = Some (Car_line 12 3 ''left the ferry'')
   \<and> feasible late_run
   \<and> length (stdout (state_after late_run)) = 6
   \<and> log_in_time (state_after late_run)"
proof -
  have f: "feasible late_run" by code_simp
  have n: "length (stdout (state_after late_run)) = 6" by code_simp
  have r: "real PROGRAM_RUNTIME < 61" "\<not> real PROGRAM_RUNTIME < 12"
    by (simp_all add: PROGRAM_RUNTIME_def)
  show ?thesis
    using f n r
      print_status_filter [of 61 3 "''left the ferry''" _ late_run]
      print_status_filter [of 61 "- 1" "''arrives to new dock''" _ late_run]
      print_status_filter [of 61 "- 99" "''stop''" _ late_run]
      print_status_filter [of 12 "- 1" "''leaves the dock''" _ late_run]
      print_status_filter [of 12 3 "''left the ferry''" _ late_run]
    by (simp add: log_in_time_def)
qed

section \<open>Set-up and exit status\<close>






end
